theory Spec2Isabelle
  imports Main "HOL-Library.Word" "HOL-Library.AList"
begin

unbundle bit_operations_syntax

section \<open>Data model of src/malloc.cpp\<close>

text \<open>
  The six allocation flavours, in the order of the table \<^verbatim>\<open>alloc_type_name\<close>.
\<close>

datatype AllocType = Host | HostAsync | HostPinned | Device | Managed | ManagedReadMostly

text \<open>
  \<^verbatim>\<open>void *\<close> and \<^verbatim>\<open>size_t\<close> are 64-bit machine words; \<^verbatim>\<open>nullptr\<close> is 0.
  Device numbers (\<^verbatim>\<open>ai.device\<close>, \<^verbatim>\<open>stream->device\<close>, printed with \<^verbatim>\<open>%u\<close>) and the
  C \<^verbatim>\<open>int\<close> arguments are 32-bit words.
\<close>

type_synonym ptr = "64 word"
type_synonym size_t = "64 word"

definition nullptr :: ptr where
  "nullptr = 0"

text \<open>\<^verbatim>\<open>AllocInfo ai(type, device, size)\<close>: the key of every cache bucket.\<close>

datatype AllocInfo = AllocInfo (ai_type: AllocType) (ai_device: "32 word") (ai_size: size_t)

text \<open>
  \<^verbatim>\<open>AllocInfoMap\<close> is a hash map from \<^verbatim>\<open>AllocInfo\<close> to \<^verbatim>\<open>std::vector<void *>\<close>. It is
  an association list here (the code iterates over it); \<^verbatim>\<open>find\<close> is \<open>map_of\<close>.
\<close>

type_synonym AllocInfoMap = "(AllocInfo \<times> ptr list) list"

text \<open>The vector stored under a key; a key that \<^verbatim>\<open>find\<close> does not reach holds no pointer.\<close>

definition bucket :: "AllocInfoMap \<Rightarrow> AllocInfo \<Rightarrow> ptr list" where
  "bucket m ai = (case map_of m ai of None \<Rightarrow> [] | Some l \<Rightarrow> l)"

text \<open>\<^verbatim>\<open>m[ai].push_back(ptr)\<close>: \<^verbatim>\<open>operator[]\<close> creates the entry when it is missing.\<close>

definition push_back :: "AllocInfoMap \<Rightarrow> AllocInfo \<Rightarrow> ptr \<Rightarrow> AllocInfoMap" where
  "push_back m ai p = AList.update ai (bucket m ai @ [p]) m"

text \<open>\<^verbatim>\<open>target = m[ai]; target.insert(target.end(), l.begin(), l.end())\<close>.\<close>

definition insert_end :: "AllocInfoMap \<Rightarrow> AllocInfo \<Rightarrow> ptr list \<Rightarrow> AllocInfoMap" where
  "insert_end m ai l = AList.update ai (bucket m ai @ l) m"

text \<open>
  \<^verbatim>\<open>it = m.find(ai); if (it != m.end() && !it.value().empty()) { ptr = list.back();
  list.pop_back(); }\<close>: the pointer taken and the map left, or \<open>None\<close>.
\<close>

definition pop_back :: "AllocInfoMap \<Rightarrow> AllocInfo \<Rightarrow> (ptr \<times> AllocInfoMap) option" where
  "pop_back m ai =
     (case map_of m ai of
        None \<Rightarrow> None
      | Some l \<Rightarrow> if l = [] then None else Some (last l, AList.update ai (butlast l) m))"

text \<open>
  A node of a stream's release chain. The \<^verbatim>\<open>next\<close> pointers make a singly linked
  list, which is the list of nodes here, head first (\<^verbatim>\<open>nullptr\<close> is \<open>[]\<close>); \<open>addr\<close> is
  the address \<^verbatim>\<open>new ReleaseChain()\<close> returned, by which a callback finds its node.
\<close>

datatype ReleaseChain = ReleaseChain (addr: nat) (entries: AllocInfoMap)

text \<open>
  The host functions handed to \<^verbatim>\<open>cuLaunchHostFunc\<close> / \<^verbatim>\<open>tbb_stream_enqueue_func\<close>, with
  their payload: the one of \<^verbatim>\<open>jit_free_flush\<close> (payload \<^verbatim>\<open>chain_new\<close>) and the ones of
  \<^verbatim>\<open>jit_malloc_migrate\<close> (\<^verbatim>\<open>alloc_unmap.emplace_back(flag, ptr)\<close>).
\<close>

datatype callback = FlushCallback nat | UnmapCallback bool ptr

text \<open>
  \<^verbatim>\<open>Stream\<close>: the fields the allocator reads. \<open>pending\<close> is the queue behind
  \<^verbatim>\<open>stream->handle\<close>: the host functions enqueued and not yet run, oldest first.
\<close>

record Stream =
  cuda :: bool
  device :: "32 word"
  release_chain :: "ReleaseChain list"
  pending :: "callback list"

text \<open>What the allocator does to the outside world, in program order.\<close>

datatype event =
    RawAlloc AllocType size_t
  | RawFree AllocType ptr
  | EnterTrim bool
  | TrimWarning
  | LeakWarning AllocType nat size_t
  | SyncAllDevices
  | HostRegister ptr size_t
  | HostUnregister ptr
  | MemcpyAsync ptr ptr size_t
  | PrefetchAsync ptr size_t "32 word"

text \<open>
  One answer of a raw allocator (\<^verbatim>\<open>posix_memalign\<close> with alignment 64, \<^verbatim>\<open>cuMemAlloc\<close>,
  \<^verbatim>\<open>cuMemAllocHost\<close>, \<^verbatim>\<open>cuMemAllocManaged\<close>): the pointer written on success, or a
  refusal (\<^verbatim>\<open>ENOMEM\<close>, respectively a result other than \<^verbatim>\<open>CUDA_SUCCESS\<close>).
\<close>

datatype raw_result = Allocated ptr | Refused

datatype error =
    NoActiveStream
  | WrongBackend
  | NoCudaStream
  | OutOfMemory
  | UnknownPointer
  | UnsupportedMigration
  | InvalidDevice
  | InvalidKindForPrefetch
  | InternalError
  | UndefinedBehaviour

text \<open>
  The global \<^verbatim>\<open>state\<close> with the other globals the file reads: the thread's
  \<^verbatim>\<open>active_stream\<close> (an index into \<open>streams\<close>), \<^verbatim>\<open>jit_malloc_trim_warned\<close>,
  \<^verbatim>\<open>jit_llvm_vector_width\<close>, and the compile-time switch \<^verbatim>\<open>ENOKI_ENABLE_TBB\<close>.
  \<open>devices\<close> holds the \<^verbatim>\<open>id\<close> of each entry of \<^verbatim>\<open>state.devices\<close>. \<open>raw_alloc\<close> is
  the environment: the answer to the k-th call of a raw allocator; \<open>raw_calls\<close> counts
  the calls made. \<open>chain_addr\<close> is the next address \<^verbatim>\<open>new ReleaseChain()\<close> returns.
\<close>

record jit_state =
  alloc_used :: "(ptr \<times> AllocInfo) list"
  alloc_free :: AllocInfoMap
  alloc_unmap :: "(bool \<times> ptr) list"
  alloc_usage :: "AllocType \<Rightarrow> size_t"
  alloc_watermark :: "AllocType \<Rightarrow> size_t"
  devices :: "32 word list"
  streams :: "Stream list"
  active_stream :: "nat option"
  jit_malloc_trim_warned :: bool
  jit_llvm_vector_width :: "32 word"
  ENOKI_ENABLE_TBB :: bool
  chain_addr :: nat
  raw_alloc :: "nat \<Rightarrow> raw_result"
  raw_calls :: nat
  log :: "event list"

type_synonym 'a result = "(error + 'a) \<times> jit_state"

text \<open>
  \<^verbatim>\<open>Stream *stream = active_stream\<close>: the index and the stream, \<open>None\<close> for
  \<^verbatim>\<open>nullptr\<close> (an index outside the table reads as no stream).
\<close>

definition get_stream :: "jit_state \<Rightarrow> (nat \<times> Stream) option" where
  "get_stream st =
     (case active_stream st of
        None \<Rightarrow> None
      | Some i \<Rightarrow> if i < length (streams st) then Some (i, streams st ! i) else None)"

definition set_chain :: "jit_state \<Rightarrow> nat \<Rightarrow> ReleaseChain list \<Rightarrow> jit_state" where
  "set_chain st i ch = st\<lparr>streams := (streams st)[i := (streams st ! i)\<lparr>release_chain := ch\<rparr>]\<rparr>"

text \<open>\<^verbatim>\<open>cuLaunchHostFunc(stream->handle, fn, payload)\<close> and its TBB twin.\<close>

definition enqueue :: "jit_state \<Rightarrow> nat \<Rightarrow> callback \<Rightarrow> jit_state" where
  "enqueue st i cb =
     st\<lparr>streams := (streams st)[i := (streams st ! i)\<lparr>pending := pending (streams st ! i) @ [cb]\<rparr>]\<rparr>"

definition emit :: "jit_state \<Rightarrow> event list \<Rightarrow> jit_state" where
  "emit st es = st\<lparr>log := log st @ es\<rparr>"

section \<open>Size classification\<close>

text \<open>\<^verbatim>\<open>size_t round_pow2(size_t x)\<close>.\<close>

definition round_pow2 :: "size_t \<Rightarrow> size_t" where
  "round_pow2 x0 =
     (let x = x0 - 1;
          x = x OR drop_bit 1 x;  x = x OR drop_bit 2 x;
          x = x OR drop_bit 4 x;  x = x OR drop_bit 8 x;
          x = x OR drop_bit 16 x; x = x OR drop_bit 32 x
      in x + 1)"

text \<open>
  The first lines of \<^verbatim>\<open>jit_malloc\<close>: the multiple that \<^verbatim>\<open>size\<close> is rounded up to
  (\<^verbatim>\<open>sizeof(double)\<close> is 8), the rounding to it, and the size of the \<^verbatim>\<open>AllocInfo\<close>.
\<close>

definition packet_size :: "jit_state \<Rightarrow> AllocType \<Rightarrow> size_t" where
  "packet_size st type =
     (if (type \<noteq> Host \<and> type \<noteq> HostAsync) \<or> jit_llvm_vector_width st < 16
      then 64
      else ucast (jit_llvm_vector_width st) * 8)"

definition round_packet :: "jit_state \<Rightarrow> AllocType \<Rightarrow> size_t \<Rightarrow> size_t" where
  "round_packet st type sz =
     (if (type \<noteq> Host \<and> type \<noteq> HostAsync) \<or> jit_llvm_vector_width st < 16
      then (sz + 63) div 64 * 64
      else (sz + packet_size st type - 1) div packet_size st type * packet_size st type)"

definition rounded_size :: "jit_state \<Rightarrow> AllocType \<Rightarrow> size_t \<Rightarrow> size_t" where
  "rounded_size st type sz = round_pow2 (round_packet st type sz)"

text \<open>\<^verbatim>\<open>#if !defined(ENOKI_ENABLE_TBB) if (type == HostAsync) type = Host;\<close>\<close>

definition effective_type :: "jit_state \<Rightarrow> AllocType \<Rightarrow> AllocType" where
  "effective_type st type = (if \<not> ENOKI_ENABLE_TBB st \<and> type = HostAsync then Host else type)"

section \<open>jit\_free\<close>

text \<open>
  The loop over the drained \<^verbatim>\<open>alloc_unmap\<close> list, as in \<^verbatim>\<open>jit_free\<close> and in
  \<^verbatim>\<open>jit_malloc_trim\<close>: \<^verbatim>\<open>cuMemHostUnregister(kv.second); if (kv.first)
  jit_free(kv.second);\<close>. An exception of the inner \<^verbatim>\<open>jit_free\<close> ends the loop.
\<close>

fun unmap_loop ::
  "(jit_state \<Rightarrow> ptr \<Rightarrow> unit result) \<Rightarrow> jit_state \<Rightarrow> (bool \<times> ptr) list \<Rightarrow> unit result" where
  "unmap_loop free st [] = (Inr (), st)"
| "unmap_loop free st (kv # kvs) =
     (let st1 = emit st [HostUnregister (snd kv)] in
      if fst kv then
        (case free st1 (snd kv) of
           (Inl e, st2) \<Rightarrow> (Inl e, st2)
         | (Inr u, st2) \<Rightarrow> unmap_loop free st2 kvs)
      else unmap_loop free st1 kvs)"

text \<open>
  The branch "Standard case -- free asynchronously" up to the swap of \<^verbatim>\<open>alloc_unmap\<close>:
  the head node is created when the chain is empty, and \<^verbatim>\<open>ptr\<close> goes to its bucket.
\<close>

definition push_chain :: "jit_state \<Rightarrow> nat \<Rightarrow> AllocInfo \<Rightarrow> ptr \<Rightarrow> jit_state" where
  "push_chain st i ai p =
     (case release_chain (streams st ! i) of
        [] \<Rightarrow> set_chain (st\<lparr>chain_addr := Suc (chain_addr st)\<rparr>) i
                [ReleaseChain (chain_addr st) (push_back [] ai p)]
      | c # cs \<Rightarrow> set_chain st i (ReleaseChain (addr c) (push_back (entries c) ai p) # cs))"

text \<open>
  The body of \<^verbatim>\<open>jit_free\<close>; \<open>self\<close> stands for the recursive call made on the
  entries drained from \<^verbatim>\<open>alloc_unmap\<close>. After the loop, \<^verbatim>\<open>it\<close> is looked up again when
  a recursive call was made (\<^verbatim>\<open>reload\<close>); \<^verbatim>\<open>erase(end())\<close> is undefined behaviour.
\<close>

definition jit_free_body ::
  "(jit_state \<Rightarrow> ptr \<Rightarrow> unit result) \<Rightarrow> jit_state \<Rightarrow> ptr \<Rightarrow> unit result" where
  "jit_free_body self st p =
     (if p = nullptr then (Inr (), st)
      else case map_of (alloc_used st) p of
        None \<Rightarrow> (Inl UnknownPointer, st)
      | Some ai \<Rightarrow>
          (case
             (if ai_type ai = Host then
                (Inr (), st\<lparr>alloc_free := push_back (alloc_free st) ai p\<rparr>)
              else
                (case get_stream st of
                   None \<Rightarrow>
                     (Inr (), (emit st [SyncAllDevices])
                                \<lparr>alloc_free := push_back (alloc_free st) ai p\<rparr>)
                 | Some (i, stream) \<Rightarrow>
                     if (ai_type ai \<noteq> HostAsync) = cuda stream then
                       (let st1 = push_chain st i ai p in
                        if cuda stream then
                          (let alloc_unmap_local = alloc_unmap st1;
                               st2 = st1\<lparr>alloc_unmap := []\<rparr>
                           in case unmap_loop self st2 alloc_unmap_local of
                                (Inl e, st3) \<Rightarrow> (Inl e, st3)
                              | (Inr u, st3) \<Rightarrow>
                                  if list_ex fst alloc_unmap_local
                                     \<and> map_of (alloc_used st3) p = None
                                  then (Inl UndefinedBehaviour, st3)
                                  else (Inr (), st3))
                        else (Inr (), st1))
                     else
                       (Inr (), (emit st [SyncAllDevices])
                                  \<lparr>alloc_free := push_back (alloc_free st) ai p\<rparr>)))
           of
             (Inl e, st') \<Rightarrow> (Inl e, st')
           | (Inr u, st') \<Rightarrow>
               (Inr (), st'\<lparr>alloc_usage := (alloc_usage st')
                                (ai_type ai := alloc_usage st' (ai_type ai) - ai_size ai),
                            alloc_used := AList.delete p (alloc_used st')\<rparr>)))"

text \<open>
  \<^verbatim>\<open>jit_free\<close>. A recursive call runs with \<^verbatim>\<open>alloc_unmap\<close> just emptied by its caller, so
  its own loop has nothing to do and the recursion is two calls deep at most: the inner
  call is the body whose \<open>self\<close> is never reached. \<open>jit_free_unfold\<close> below shows that
  \<open>jit_free\<close> satisfies the recursive equation of the source.
\<close>

definition jit_free_inner :: "jit_state \<Rightarrow> ptr \<Rightarrow> unit result" where
  "jit_free_inner = jit_free_body (\<lambda>st p. (Inl InternalError, st))"

definition jit_free :: "jit_state \<Rightarrow> ptr \<Rightarrow> unit result" where
  "jit_free = jit_free_body jit_free_inner"

section \<open>jit\_malloc\_trim\<close>

text \<open>
  The raw frees of the second half of \<^verbatim>\<open>jit_malloc_trim\<close>, bucket by bucket
  (\<^verbatim>\<open>cuMemFree\<close>, \<^verbatim>\<open>cuMemFreeHost\<close> or \<^verbatim>\<open>free\<close> by the type of the key).
\<close>

definition raw_frees :: "AllocInfoMap \<Rightarrow> event list" where
  "raw_frees m = concat (map (\<lambda>kv. map (RawFree (ai_type (fst kv))) (snd kv)) m)"

text \<open>
  \<^verbatim>\<open>jit_malloc_trim(bool warn)\<close>. \<open>EnterTrim\<close> marks the call in the log.
\<close>

definition jit_malloc_trim :: "jit_state \<Rightarrow> bool \<Rightarrow> unit result" where
  "jit_malloc_trim st0 warn =
     (let st = emit st0 [EnterTrim warn];
          st1 = (if warn \<and> \<not> jit_malloc_trim_warned st
                 then (emit st [TrimWarning])\<lparr>jit_malloc_trim_warned := True\<rparr>
                 else st);
          alloc_free_local = alloc_free st1;
          alloc_unmap_local = alloc_unmap st1;
          st2 = st1\<lparr>alloc_free := [], alloc_unmap := []\<rparr>
      in case unmap_loop jit_free st2 alloc_unmap_local of
           (Inl e, st3) \<Rightarrow> (Inl e, st3)
         | (Inr u, st3) \<Rightarrow> (Inr (), emit st3 (raw_frees alloc_free_local)))"

text \<open>
  Modelled from the spec: the default argument of \<^verbatim>\<open>jit_malloc_trim\<close>, which the call
  \<^verbatim>\<open>jit_malloc_trim()\<close> in \<^verbatim>\<open>jit_malloc\<close> takes from a header that is not part of the
  sources ("Core retries once after \<^verbatim>\<open>trim(warn=true)\<close>").
\<close>

definition trim_default_warn :: bool where
  "trim_default_warn = True"

section \<open>jit\_malloc\<close>

text \<open>
  The walk over \<^verbatim>\<open>stream->release_chain\<close>: the first node whose bucket for \<^verbatim>\<open>ai\<close> is
  not empty gives its last pointer.
\<close>

fun chain_pop :: "ReleaseChain list \<Rightarrow> AllocInfo \<Rightarrow> (ptr \<times> ReleaseChain list) option" where
  "chain_pop [] ai = None"
| "chain_pop (c # cs) ai =
     (case pop_back (entries c) ai of
        Some (p, m) \<Rightarrow> Some (p, ReleaseChain (addr c) m # cs)
      | None \<Rightarrow>
          (case chain_pop cs ai of
             None \<Rightarrow> None
           | Some (p, cs') \<Rightarrow> Some (p, c # cs')))"

text \<open>
  The block under \<^verbatim>\<open>malloc_mutex\<close>: the checks of the active stream, which complete
  \<^verbatim>\<open>ai\<close>, then the search of the stream's chain and of \<^verbatim>\<open>state.alloc_free\<close>. The result
  is \<^verbatim>\<open>ai\<close> and \<^verbatim>\<open>ptr\<close> (\<open>nullptr\<close> when nothing was found).
\<close>

definition malloc_info :: "jit_state \<Rightarrow> AllocType \<Rightarrow> size_t \<Rightarrow> error + AllocInfo" where
  "malloc_info st type0 sz =
     (let type = effective_type st type0;
          ai = AllocInfo type 0 (rounded_size st type0 sz)
      in if type = Device \<or> type = HostAsync then
           (case get_stream st of
              None \<Rightarrow> Inl NoActiveStream
            | Some (i, stream) \<Rightarrow>
                if (\<not> cuda stream) = (type = Device) then Inl WrongBackend
                else Inr (AllocInfo type (if cuda stream then device stream else 0) (ai_size ai)))
         else Inr ai)"

definition malloc_cached :: "jit_state \<Rightarrow> AllocInfo \<Rightarrow> ptr \<times> jit_state" where
  "malloc_cached st ai =
     (let local =
            (if ai_type ai = Device \<or> ai_type ai = HostAsync then
               (case get_stream st of
                  None \<Rightarrow> None
                | Some (i, stream) \<Rightarrow>
                    (case chain_pop (release_chain stream) ai of
                       None \<Rightarrow> None
                     | Some (p, ch) \<Rightarrow> Some (p, set_chain st i ch)))
             else None)
      in case local of
           Some (p, st1) \<Rightarrow> (p, st1)
         | None \<Rightarrow>
             (case pop_back (alloc_free st) ai of
                Some (p, m) \<Rightarrow> (p, st\<lparr>alloc_free := m\<rparr>)
              | None \<Rightarrow> (nullptr, st)))"

text \<open>One call of the raw allocator chosen by the type, with the main lock released.\<close>

definition raw_attempt :: "jit_state \<Rightarrow> AllocInfo \<Rightarrow> raw_result \<times> jit_state" where
  "raw_attempt st ai =
     (raw_alloc st (raw_calls st),
      (emit st [RawAlloc (ai_type ai) (ai_size ai)])\<lparr>raw_calls := Suc (raw_calls st)\<rparr>)"

text \<open>
  "3. Looks like we will have to allocate some memory": the first call, and after a
  refusal \<^verbatim>\<open>jit_malloc_trim()\<close> and the second call. The result is \<^verbatim>\<open>ptr\<close>, \<open>nullptr\<close>
  when both were refused. Both branches of the source (host and CUDA) have this shape;
  \<^verbatim>\<open>posix_memalign\<close> with alignment 64 returns 0 or \<^verbatim>\<open>ENOMEM\<close>.
\<close>

definition malloc_new :: "jit_state \<Rightarrow> AllocInfo \<Rightarrow> ptr result" where
  "malloc_new st ai =
     (case raw_attempt st ai of
        (Allocated p, st1) \<Rightarrow> (Inr p, st1)
      | (Refused, st1) \<Rightarrow>
          (case jit_malloc_trim st1 trim_default_warn of
             (Inl e, st2) \<Rightarrow> (Inl e, st2)
           | (Inr u, st2) \<Rightarrow>
               (case raw_attempt st2 ai of
                  (Allocated p, st3) \<Rightarrow> (Inr p, st3)
                | (Refused, st3) \<Rightarrow> (Inr nullptr, st3))))"

text \<open>
  The end of \<^verbatim>\<open>jit_malloc\<close>: \<^verbatim>\<open>alloc_used.emplace(ptr, ai)\<close> (which keeps an entry that is
  already there), \<^verbatim>\<open>usage += ai.size; watermark = std::max(watermark, usage)\<close>.
\<close>

definition emplace :: "(ptr \<times> AllocInfo) list \<Rightarrow> ptr \<Rightarrow> AllocInfo \<Rightarrow> (ptr \<times> AllocInfo) list" where
  "emplace m p ai = (case map_of m p of None \<Rightarrow> m @ [(p, ai)] | Some old \<Rightarrow> m)"

definition register :: "jit_state \<Rightarrow> ptr \<Rightarrow> AllocInfo \<Rightarrow> jit_state" where
  "register st p ai =
     (let usage = alloc_usage st (ai_type ai) + ai_size ai
      in st\<lparr>alloc_used := emplace (alloc_used st) p ai,
            alloc_usage := (alloc_usage st)(ai_type ai := usage),
            alloc_watermark := (alloc_watermark st)
               (ai_type ai := max (alloc_watermark st (ai_type ai)) usage)\<rparr>)"

definition jit_malloc :: "jit_state \<Rightarrow> AllocType \<Rightarrow> size_t \<Rightarrow> ptr result" where
  "jit_malloc st type sz =
     (if sz = 0 then (Inr nullptr, st)
      else case malloc_info st type sz of
        Inl e \<Rightarrow> (Inl e, st)
      | Inr ai \<Rightarrow>
          (case malloc_cached st ai of
             (p, st1) \<Rightarrow>
               (case (if p = nullptr then malloc_new st1 ai else (Inr p, st1)) of
                  (Inl e, st2) \<Rightarrow> (Inl e, st2)
                | (Inr p', st2) \<Rightarrow>
                    if p' = nullptr then (Inl OutOfMemory, st2)
                    else (Inr p', register st2 p' ai))))"

section \<open>jit\_free\_flush and its callback\<close>

text \<open>
  \<^verbatim>\<open>jit_free_flush\<close>. \<^verbatim>\<open>n_dealloc\<close> adds up the sizes of the vectors of the head node.
  On a stream that is not a CUDA stream, a build without TBB ends in \<^verbatim>\<open>jitc_fail\<close>,
  after the new head is in place.
\<close>

definition n_dealloc :: "AllocInfoMap \<Rightarrow> nat" where
  "n_dealloc m = sum_list (map (\<lambda>kv. length (snd kv)) m)"

definition jit_free_flush :: "jit_state \<Rightarrow> unit result" where
  "jit_free_flush st =
     (case get_stream st of
        None \<Rightarrow> (Inr (), st)
      | Some (i, stream) \<Rightarrow>
          (case release_chain stream of
             [] \<Rightarrow> (Inr (), st)
           | chain # rest \<Rightarrow>
               if entries chain = [] then (Inr (), st)
               else if n_dealloc (entries chain) = 0 then (Inr (), st)
               else
                 (let chain_new = ReleaseChain (chain_addr st) [];
                      st1 = set_chain (st\<lparr>chain_addr := Suc (chain_addr st)\<rparr>) i
                              (chain_new # chain # rest)
                  in if cuda stream \<or> ENOKI_ENABLE_TBB st
                     then (Inr (), enqueue st1 i (FlushCallback (addr chain_new)))
                     else (Inl InternalError, st1))))"

text \<open>
  The host function of \<^verbatim>\<open>jit_free_flush\<close>, run for the stream \<open>i\<close> it was enqueued on
  with payload \<^verbatim>\<open>chain0\<close>: the loop over \<^verbatim>\<open>chain1->entries\<close>, then \<^verbatim>\<open>delete chain1;
  chain0->next = nullptr\<close>. \<open>split_chain\<close> finds \<^verbatim>\<open>chain0\<close> by its address: the nodes
  before it, the node, the nodes after it. A payload that is no node of the chain, or
  that has no successor, is a wild or null pointer.
\<close>

fun split_chain ::
  "nat \<Rightarrow> ReleaseChain list \<Rightarrow> (ReleaseChain list \<times> ReleaseChain \<times> ReleaseChain list) option" where
  "split_chain a [] = None"
| "split_chain a (c # cs) =
     (if addr c = a then Some ([], c, cs)
      else case split_chain a cs of
             None \<Rightarrow> None
           | Some (pre, c0, post) \<Rightarrow> Some (c # pre, c0, post))"

definition reclaim :: "AllocInfoMap \<Rightarrow> AllocInfoMap \<Rightarrow> AllocInfoMap" where
  "reclaim es alloc_free0 = fold (\<lambda>kv target. insert_end target (fst kv) (snd kv)) es alloc_free0"

definition flush_callback :: "jit_state \<Rightarrow> nat \<Rightarrow> nat \<Rightarrow> unit result" where
  "flush_callback st i chain0 =
     (if i < length (streams st) then
        (case split_chain chain0 (release_chain (streams st ! i)) of
           None \<Rightarrow> (Inl UndefinedBehaviour, st)
         | Some (pre, c0, []) \<Rightarrow> (Inl UndefinedBehaviour, st)
         | Some (pre, c0, chain1 # rest) \<Rightarrow>
             (Inr (), set_chain (st\<lparr>alloc_free := reclaim (entries chain1) (alloc_free st)\<rparr>)
                        i (pre @ [c0])))
      else (Inl UndefinedBehaviour, st))"

text \<open>The host functions of \<^verbatim>\<open>jit_malloc_migrate\<close>.\<close>

definition unmap_callback :: "jit_state \<Rightarrow> bool \<Rightarrow> ptr \<Rightarrow> jit_state" where
  "unmap_callback st flag p = st\<lparr>alloc_unmap := alloc_unmap st @ [(flag, p)]\<rparr>"

text \<open>
  The stream \<open>i\<close> reaches its oldest pending host function and runs it (nothing happens
  when none is pending).
\<close>

definition run_callback :: "jit_state \<Rightarrow> nat \<Rightarrow> unit result" where
  "run_callback st i =
     (if i < length (streams st) then
        (case pending (streams st ! i) of
           [] \<Rightarrow> (Inr (), st)
         | cb # cbs \<Rightarrow>
             (let st1 = st\<lparr>streams := (streams st)[i := (streams st ! i)\<lparr>pending := cbs\<rparr>]\<rparr>
              in case cb of
                   FlushCallback chain0 \<Rightarrow> flush_callback st1 i chain0
                 | UnmapCallback flag p \<Rightarrow> (Inr (), unmap_callback st1 flag p)))
      else (Inr (), st))"

section \<open>jit\_malloc\_migrate\<close>

text \<open>
  \<^verbatim>\<open>jit_malloc_migrate(ptr, type, move)\<close>. The stream is read once at the start; its
  index serves for the later \<^verbatim>\<open>stream->handle\<close>.
\<close>

definition migrate_copy ::
  "jit_state \<Rightarrow> nat \<Rightarrow> ptr \<Rightarrow> ptr \<Rightarrow> AllocInfo \<Rightarrow> AllocType \<Rightarrow> bool \<Rightarrow> ptr result" where
  "migrate_copy st1 i p ptr_new ai type move =
     (if ai_type ai = Host then
        (Inr ptr_new,
         enqueue (emit st1 [HostRegister p (ai_size ai), MemcpyAsync ptr_new p (ai_size ai)])
           i (UnmapCallback move p))
      else if type = Host then
        (let st2 = enqueue
               (emit st1 [HostRegister ptr_new (ai_size ai), MemcpyAsync ptr_new p (ai_size ai)])
               i (UnmapCallback False ptr_new)
         in if move then
              (case jit_free st2 p of
                 (Inl e, st3) \<Rightarrow> (Inl e, st3)
               | (Inr u, st3) \<Rightarrow> (Inr ptr_new, st3))
            else (Inr ptr_new, st2))
      else
        (let st2 = emit st1 [MemcpyAsync ptr_new p (ai_size ai)]
         in if move then
              (case jit_free st2 p of
                 (Inl e, st3) \<Rightarrow> (Inl e, st3)
               | (Inr u, st3) \<Rightarrow> (Inr ptr_new, st3))
            else (Inr ptr_new, st2)))"

definition jit_malloc_migrate :: "jit_state \<Rightarrow> ptr \<Rightarrow> AllocType \<Rightarrow> 32 word \<Rightarrow> ptr result" where
  "jit_malloc_migrate st p type0 move =
     (case get_stream st of
        None \<Rightarrow> (Inl NoActiveStream, st)
      | Some (i, stream) \<Rightarrow>
          (case map_of (alloc_used st) p of
             None \<Rightarrow> (Inl UnknownPointer, st)
           | Some ai \<Rightarrow>
               if ENOKI_ENABLE_TBB st
                  \<and> ((ai_type ai = Host \<and> type0 = HostAsync)
                     \<or> (ai_type ai = HostAsync \<and> type0 = Host))
                  \<and> move \<noteq> 0
               then (Inr p, st\<lparr>alloc_used :=
                        AList.update p (AllocInfo type0 (ai_device ai) (ai_size ai)) (alloc_used st)\<rparr>)
               else
                 (let type = effective_type st type0
                  in if ai_type ai = type \<and> (type \<noteq> Device \<or> ai_device ai = device stream)
                     then (Inr p, st)
                     else if \<not> cuda stream then (Inl NoCudaStream, st)
                     else
                       (case jit_malloc st type (ai_size ai) of
                          (Inl e, st1) \<Rightarrow> (Inl e, st1)
                        | (Inr ptr_new, st1) \<Rightarrow>
                            if type = HostAsync \<or> ai_type ai = HostAsync
                            then (Inl UnsupportedMigration, st1)
                            else migrate_copy st1 i p ptr_new ai type (move \<noteq> 0)))))"

section \<open>jit\_malloc\_prefetch\<close>

text \<open>
  \<^verbatim>\<open>jit_malloc_prefetch(ptr, device)\<close>. \<^verbatim>\<open>CU_DEVICE_CPU\<close> is -1 in the CUDA headers;
  \<^verbatim>\<open>(size_t) device\<close> extends the sign of the \<^verbatim>\<open>int\<close>.
\<close>

definition CU_DEVICE_CPU :: "32 word" where
  "CU_DEVICE_CPU = - 1"

definition jit_malloc_prefetch :: "jit_state \<Rightarrow> ptr \<Rightarrow> 32 word \<Rightarrow> unit result" where
  "jit_malloc_prefetch st p device0 =
     (case get_stream st of
        None \<Rightarrow> (Inl NoCudaStream, st)
      | Some (i, stream) \<Rightarrow>
          if \<not> cuda stream then (Inl NoCudaStream, st)
          else
            (case (if device0 = - 1 then Inr CU_DEVICE_CPU
                   else if unat (scast device0 :: size_t) \<ge> length (devices st)
                        then Inl InvalidDevice
                        else Inr (devices st ! unat (scast device0 :: size_t))) of
               Inl e \<Rightarrow> (Inl e, st)
             | Inr dev \<Rightarrow>
                 (case map_of (alloc_used st) p of
                    None \<Rightarrow> (Inl UnknownPointer, st)
                  | Some ai \<Rightarrow>
                      if ai_type ai \<noteq> Managed \<and> ai_type ai \<noteq> ManagedReadMostly
                      then (Inl InvalidKindForPrefetch, st)
                      else if dev = - 2
                      then (Inr (), emit st (map (PrefetchAsync p (ai_size ai)) (devices st)))
                      else (Inr (), emit st [PrefetchAsync p (ai_size ai) dev]))))"

section \<open>jit\_malloc\_shutdown\<close>

definition all_types :: "AllocType list" where
  "all_types = [Host, HostAsync, HostPinned, Device, Managed, ManagedReadMostly]"

definition leak_report :: "(ptr \<times> AllocInfo) list \<Rightarrow> event list" where
  "leak_report used =
     concat (map (\<lambda>t. let leaks = filter (\<lambda>kv. ai_type (snd kv) = t) used
                      in if leaks = [] then []
                         else [LeakWarning t (length leaks) (sum_list (map (\<lambda>kv. ai_size (snd kv)) leaks))])
                 all_types)"

definition jit_malloc_shutdown :: "jit_state \<Rightarrow> unit result" where
  "jit_malloc_shutdown st =
     (case jit_malloc_trim st False of
        (Inl e, st1) \<Rightarrow> (Inl e, st1)
      | (Inr u, st1) \<Rightarrow> (Inr (), emit st1 (leak_report (alloc_used st1))))"

section \<open>The operations as steps\<close>

text \<open>
  The public operations, a stream running its next host function, and the client
  choosing the active stream (\<^verbatim>\<open>jit_set_device\<close>). A step keeps the state an operation
  leaves behind, also when it ends in an exception.
\<close>

datatype operation =
    Malloc AllocType size_t
  | Free ptr
  | FreeFlush
  | Migrate ptr AllocType "32 word"
  | Prefetch ptr "32 word"
  | Trim bool
  | Shutdown
  | RunCallback nat
  | SetActive "nat option"

fun step :: "jit_state \<Rightarrow> operation \<Rightarrow> jit_state" where
  "step st (Malloc type sz) = snd (jit_malloc st type sz)"
| "step st (Free p) = snd (jit_free st p)"
| "step st FreeFlush = snd (jit_free_flush st)"
| "step st (Migrate p type move) = snd (jit_malloc_migrate st p type move)"
| "step st (Prefetch p dev) = snd (jit_malloc_prefetch st p dev)"
| "step st (Trim warn) = snd (jit_malloc_trim st warn)"
| "step st Shutdown = snd (jit_malloc_shutdown st)"
| "step st (RunCallback i) = snd (run_callback st i)"
| "step st (SetActive a) = st\<lparr>active_stream := a\<rparr>"

section \<open>Properties of states\<close>

text \<open>
  The parts of the state that no operation of the file writes: the choice of the active
  stream, the backend and device of every stream, the build and platform parameters,
  the environment and the device registry.
\<close>

definition config ::
  "jit_state \<Rightarrow> nat option \<times> (bool \<times> 32 word) list \<times> bool \<times> 32 word
     \<times> (nat \<Rightarrow> raw_result) \<times> 32 word list" where
  "config st =
     (active_stream st, map (\<lambda>s. (cuda s, device s)) (streams st), ENOKI_ENABLE_TBB st,
      jit_llvm_vector_width st, raw_alloc st, devices st)"

text \<open>
  The sum of the sizes of the entries of \<open>alloc_used\<close> of one kind (in \<^verbatim>\<open>size_t\<close>
  arithmetic), and the agreement of \<open>alloc_usage\<close> with it for every kind.
\<close>

definition usage_sum :: "(ptr \<times> AllocInfo) list \<Rightarrow> AllocType \<Rightarrow> size_t" where
  "usage_sum used k =
     sum_list (map (\<lambda>kv. ai_size (snd kv)) (filter (\<lambda>kv. ai_type (snd kv) = k) used))"

definition usage_consistent :: "jit_state \<Rightarrow> bool" where
  "usage_consistent st =
     list_all (\<lambda>k. alloc_usage st k = usage_sum (alloc_used st) k) all_types"

text \<open>
  Kinds of the pointers held in release chains. \<open>claimed_kinds\<close> is the rule in the
  words of the specification: Device memory of the stream's own device, or HostAsync
  memory on a worker-pool stream. \<open>chain_kinds\<close> is the rule of \<^verbatim>\<open>jit_free\<close>: never
  Host, and HostAsync exactly on a worker-pool stream. \<open>chains_hold K\<close> says that every
  bucket that holds a pointer, in every node of every stream's chain, has a key that
  \<open>K\<close> accepts for that stream.
\<close>

definition claimed_kinds :: "Stream \<Rightarrow> AllocInfo \<Rightarrow> bool" where
  "claimed_kinds s ai \<longleftrightarrow>
     (ai_type ai = Device \<and> ai_device ai = device s) \<or> (ai_type ai = HostAsync \<and> \<not> cuda s)"

definition chain_kinds :: "Stream \<Rightarrow> AllocInfo \<Rightarrow> bool" where
  "chain_kinds s ai \<longleftrightarrow> ai_type ai \<noteq> Host \<and> (ai_type ai = HostAsync) = (\<not> cuda s)"

definition chains_hold :: "(Stream \<Rightarrow> AllocInfo \<Rightarrow> bool) \<Rightarrow> jit_state \<Rightarrow> bool" where
  "chains_hold K st =
     list_all (\<lambda>s. list_all (\<lambda>c. list_all (\<lambda>kv. snd kv = [] \<or> K s (fst kv)) (entries c))
                      (release_chain s))
       (streams st)"

text \<open>
  The state of \<^verbatim>\<open>x\<close> in \<^verbatim>\<open>round_pow2\<close> after some of the shifts: bit \<open>n\<close> of \<open>x\<close> is set
  exactly when one of the \<open>m\<close> bits of \<open>y\<close> from \<open>n\<close> upwards is.
\<close>

definition smeared :: "nat \<Rightarrow> size_t \<Rightarrow> size_t \<Rightarrow> bool" where
  "smeared m x y \<longleftrightarrow> (\<forall>n. bit x n \<longleftrightarrow> (\<exists>k<m. bit y (n + k)))"

text \<open>
  Predicates kept by every elementary update that \<^verbatim>\<open>jit_free\<close> makes
  (\<open>free_stable\<close>), that \<^verbatim>\<open>jit_malloc_trim\<close> and a raw allocation make in addition
  (\<open>trim_stable\<close>), and that the other operations make (\<open>step_stable\<close>). The
  operations keep such predicates, as the lemmas on them below show.
\<close>

definition free_stable :: "(jit_state \<Rightarrow> bool) \<Rightarrow> bool" where
  "free_stable P \<longleftrightarrow>
     (\<forall>st. P st \<longrightarrow>
        P (emit st [SyncAllDevices])
      \<and> (\<forall>q. P (emit st [HostUnregister q]))
      \<and> (\<forall>m. P (st\<lparr>alloc_free := m\<rparr>))
      \<and> P (st\<lparr>alloc_unmap := []\<rparr>)
      \<and> (\<forall>i s ai p. get_stream st = Some (i, s) \<longrightarrow> ai_type ai \<noteq> Host
            \<longrightarrow> (ai_type ai \<noteq> HostAsync) = cuda s \<longrightarrow> P (push_chain st i ai p))
      \<and> (\<forall>f q. P (st\<lparr>alloc_usage := f, alloc_used := AList.delete q (alloc_used st)\<rparr>)))"

definition trim_stable :: "(jit_state \<Rightarrow> bool) \<Rightarrow> bool" where
  "trim_stable P \<longleftrightarrow> free_stable P \<and>
     (\<forall>st. P st \<longrightarrow>
        (\<forall>w. P (emit st [EnterTrim w]))
      \<and> (\<not> jit_malloc_trim_warned st \<longrightarrow>
           P ((emit st [TrimWarning])\<lparr>jit_malloc_trim_warned := True\<rparr>))
      \<and> (\<forall>m. P (emit st (raw_frees m)))
      \<and> (\<forall>ai. P (snd (raw_attempt st ai))))"

definition step_stable :: "(jit_state \<Rightarrow> bool) \<Rightarrow> bool" where
  "step_stable P \<longleftrightarrow> trim_stable P \<and>
     (\<forall>st. P st \<longrightarrow>
        (\<forall>i s ai p ch. get_stream st = Some (i, s) \<longrightarrow> chain_pop (release_chain s) ai = Some (p, ch)
            \<longrightarrow> P (set_chain st i ch))
      \<and> (\<forall>es. TrimWarning \<notin> set es \<longrightarrow> P (emit st es))
      \<and> (\<forall>p ai. P (register st p ai))
      \<and> (\<forall>p ai. P (st\<lparr>alloc_used := AList.update p ai (alloc_used st)\<rparr>))
      \<and> (\<forall>i s. get_stream st = Some (i, s) \<longrightarrow>
            P (set_chain (st\<lparr>chain_addr := Suc (chain_addr st)\<rparr>) i
                 (ReleaseChain (chain_addr st) [] # release_chain s)))
      \<and> (\<forall>i q. P (st\<lparr>streams := (streams st)[i := (streams st ! i)\<lparr>pending := q\<rparr>]\<rparr>))
      \<and> (\<forall>i a pre c0 c1 rest. i < length (streams st)
            \<longrightarrow> split_chain a (release_chain (streams st ! i)) = Some (pre, c0, c1 # rest)
            \<longrightarrow> P (set_chain st i (pre @ [c0])))
      \<and> (\<forall>u. P (st\<lparr>alloc_unmap := u\<rparr>)))"


text \<open>
  Counting in a stretch of the log: the calls of \<^verbatim>\<open>jit_malloc_trim\<close> and the
  out-of-memory warnings. \<open>log_quiet L\<close>: the log is \<open>L\<close> followed by events with no
  such call and no warning. \<open>warned_for_good L\<close>: \<^verbatim>\<open>jit_malloc_trim_warned\<close> is set and
  no warning was logged after \<open>L\<close>.
\<close>

definition trim_calls :: "event list \<Rightarrow> nat" where
  "trim_calls es = count_list es (EnterTrim True) + count_list es (EnterTrim False)"

definition warnings :: "event list \<Rightarrow> nat" where
  "warnings es = count_list es TrimWarning"



section \<open>Example states\<close>

text \<open>
  A process at startup: nothing allocated, one GPU (device 0), a CUDA stream
  (index 0) and a worker-pool stream (index 1), vector width 8, TBB compiled in.
\<close>

definition boot_streams :: "Stream list" where
  "boot_streams =
     [\<lparr>cuda = True, device = 0, release_chain = [], pending = []\<rparr>,
      \<lparr>cuda = False, device = 0, release_chain = [], pending = []\<rparr>]"

definition boot :: "(nat \<Rightarrow> raw_result) \<Rightarrow> nat option \<Rightarrow> jit_state" where
  "boot answers act =
     \<lparr>alloc_used = [], alloc_free = [], alloc_unmap = [],
      alloc_usage = (\<lambda>t. 0), alloc_watermark = (\<lambda>t. 0),
      devices = [0], streams = boot_streams, active_stream = act,
      jit_malloc_trim_warned = False, jit_llvm_vector_width = 8,
      ENOKI_ENABLE_TBB = True, chain_addr = 0,
      raw_alloc = answers, raw_calls = 0, log = []\<rparr>"

text \<open>A raw allocator that hands out the address 4096 at every call.\<close>

definition always_4096 :: "nat \<Rightarrow> raw_result" where
  "always_4096 k = Allocated 4096"

text \<open>
  The states after one allocation of 64 bytes at startup: of managed memory and of
  device memory, with the CUDA stream active, and of host memory, with the worker-pool
  stream active.
\<close>

definition managed_state :: jit_state where
  "managed_state = snd (jit_malloc (boot always_4096 (Some 0)) Managed 64)"

definition device_state :: jit_state where
  "device_state = snd (jit_malloc (boot always_4096 (Some 0)) Device 64)"

definition host_state :: jit_state where
  "host_state = snd (jit_malloc (boot always_4096 (Some 1)) Host 64)"

text \<open>
  A raw allocator that hands out 4096, 8192, 12288, ... in turn; and a state with the
  CUDA stream active in which the pointer 4096 is registered as HostAsync memory
  (allocated while the worker-pool stream was active).
\<close>

definition bump :: "nat \<Rightarrow> raw_result" where
  "bump k = Allocated (4096 * (1 + of_nat k))"

definition async_state :: jit_state where
  "async_state = (snd (jit_malloc (boot bump (Some 1)) HostAsync 64))\<lparr>active_stream := Some 0\<rparr>"

text \<open>The state after the device pointer of \<open>device_state\<close> has been freed.\<close>

definition freed_state :: jit_state where
  "freed_state = snd (jit_free device_state 4096)"

text \<open>A raw allocator that refuses its first call and hands out 4096 afterwards.\<close>

definition refuse_once :: "nat \<Rightarrow> raw_result" where
  "refuse_once k = (if k = 0 then Refused else Allocated 4096)"



section \<open>Evaluation of the model\<close>

lemmas model_defs =
  jit_malloc_def malloc_info_def malloc_cached_def malloc_new_def raw_attempt_def
  register_def emplace_def effective_type_def rounded_size_def round_packet_def
  packet_size_def round_pow2_def get_stream_def set_chain_def emit_def enqueue_def
  pop_back_def push_back_def bucket_def nullptr_def Let_def

lemmas boot_defs = boot_def boot_streams_def always_4096_def

lemma managed_state_eval:
  "managed_state = (boot always_4096 (Some 0))
     \<lparr>alloc_used := [(4096, AllocInfo Managed 0 64)],
      alloc_usage := (\<lambda>t. 0)(Managed := 64),
      alloc_watermark := (\<lambda>t. 0)(Managed := 64),
      raw_calls := 1, log := [RawAlloc Managed 64]\<rparr>"
  by (simp add: managed_state_def model_defs boot_defs)

lemma device_state_eval:
  "device_state = (boot always_4096 (Some 0))
     \<lparr>alloc_used := [(4096, AllocInfo Device 0 64)],
      alloc_usage := (\<lambda>t. 0)(Device := 64),
      alloc_watermark := (\<lambda>t. 0)(Device := 64),
      raw_calls := 1, log := [RawAlloc Device 64]\<rparr>"
  by (simp add: device_state_def model_defs boot_defs)

lemma host_state_eval:
  "host_state = (boot always_4096 (Some 1))
     \<lparr>alloc_used := [(4096, AllocInfo Host 0 64)],
      alloc_usage := (\<lambda>t. 0)(Host := 64),
      alloc_watermark := (\<lambda>t. 0)(Host := 64),
      raw_calls := 1, log := [RawAlloc Host 64]\<rparr>"
  by (simp add: host_state_def model_defs boot_defs)

lemma async_state_eval:
  "async_state = (boot bump (Some 0))
     \<lparr>alloc_used := [(4096, AllocInfo HostAsync 0 64)],
      alloc_usage := (\<lambda>t. 0)(HostAsync := 64),
      alloc_watermark := (\<lambda>t. 0)(HostAsync := 64),
      raw_calls := 1, log := [RawAlloc HostAsync 64]\<rparr>"
  by (simp add: async_state_def model_defs boot_defs bump_def)

lemmas free_defs = jit_free_def jit_free_inner_def jit_free_body_def push_chain_def

lemma freed_state_eval:
  "freed_state = (boot always_4096 (Some 0))
     \<lparr>alloc_used := [],
      alloc_usage := (\<lambda>t. 0)(Device := 0),
      alloc_watermark := (\<lambda>t. 0)(Device := 64),
      streams := [\<lparr>cuda = True, device = 0,
                   release_chain = [ReleaseChain 0 [(AllocInfo Device 0 64, [4096])]],
                   pending = []\<rparr>,
                  \<lparr>cuda = False, device = 0, release_chain = [], pending = []\<rparr>],
      chain_addr := 1,
      raw_calls := 1, log := [RawAlloc Device 64]\<rparr>"
  by (simp add: freed_state_def device_state_eval free_defs model_defs boot_defs)



section \<open>What the operations keep\<close>

lemma free_stableD:
  assumes "free_stable P" and "P st"
  shows "P (emit st [SyncAllDevices])"
    and "P (emit st [HostUnregister q])"
    and "P (st\<lparr>alloc_free := m\<rparr>)"
    and "P (st\<lparr>alloc_unmap := []\<rparr>)"
    and "get_stream st = Some (i, s) \<Longrightarrow> ai_type ai \<noteq> Host
           \<Longrightarrow> (ai_type ai \<noteq> HostAsync) = cuda s \<Longrightarrow> P (push_chain st i ai p)"
    and "P (st\<lparr>alloc_usage := f, alloc_used := AList.delete q (alloc_used st)\<rparr>)"
proof -
  note big = assms(1) [unfolded free_stable_def, rule_format, OF assms(2)]
  show "P (emit st [SyncAllDevices])"
    by (rule big [THEN conjunct1])
  show "P (emit st [HostUnregister q])"
    by (rule big [THEN conjunct2, THEN conjunct1, rule_format])
  show "P (st\<lparr>alloc_free := m\<rparr>)"
    by (rule big [THEN conjunct2, THEN conjunct2, THEN conjunct1, rule_format])
  show "P (st\<lparr>alloc_unmap := []\<rparr>)"
    by (rule big [THEN conjunct2, THEN conjunct2, THEN conjunct2, THEN conjunct1])
  show "get_stream st = Some (i, s) \<Longrightarrow> ai_type ai \<noteq> Host
           \<Longrightarrow> (ai_type ai \<noteq> HostAsync) = cuda s \<Longrightarrow> P (push_chain st i ai p)"
    by (rule big [THEN conjunct2, THEN conjunct2, THEN conjunct2, THEN conjunct2,
          THEN conjunct1, rule_format])
  show "P (st\<lparr>alloc_usage := f, alloc_used := AList.delete q (alloc_used st)\<rparr>)"
    by (rule big [THEN conjunct2, THEN conjunct2, THEN conjunct2, THEN conjunct2,
          THEN conjunct2, rule_format])
qed

lemma trim_stable_free: "trim_stable P \<Longrightarrow> free_stable P"
  by (simp add: trim_stable_def)

lemma trim_stableD:
  assumes "trim_stable P" and "P st"
  shows "P (emit st [EnterTrim w])"
    and "\<not> jit_malloc_trim_warned st \<Longrightarrow>
           P ((emit st [TrimWarning])\<lparr>jit_malloc_trim_warned := True\<rparr>)"
    and "P (emit st (raw_frees m))"
    and "P (snd (raw_attempt st ai))"
proof -
  note big = assms(1) [unfolded trim_stable_def, THEN conjunct2, rule_format, OF assms(2)]
  show "P (emit st [EnterTrim w])"
    by (rule big [THEN conjunct1, rule_format])
  show "\<not> jit_malloc_trim_warned st \<Longrightarrow>
           P ((emit st [TrimWarning])\<lparr>jit_malloc_trim_warned := True\<rparr>)"
    by (rule big [THEN conjunct2, THEN conjunct1, rule_format])
  show "P (emit st (raw_frees m))"
    by (rule big [THEN conjunct2, THEN conjunct2, THEN conjunct1, rule_format])
  show "P (snd (raw_attempt st ai))"
    by (rule big [THEN conjunct2, THEN conjunct2, THEN conjunct2, rule_format])
qed

lemma step_stable_trim: "step_stable P \<Longrightarrow> trim_stable P"
  by (simp add: step_stable_def)

lemma step_stable_free: "step_stable P \<Longrightarrow> free_stable P"
  by (simp add: step_stable_def trim_stable_def)

lemma step_stableD:
  assumes "step_stable P" and "P st"
  shows "get_stream st = Some (i, s) \<Longrightarrow> chain_pop (release_chain s) ai = Some (p, ch)
           \<Longrightarrow> P (set_chain st i ch)"
    and "TrimWarning \<notin> set es \<Longrightarrow> P (emit st es)"
    and "P (register st p ai)"
    and "P (st\<lparr>alloc_used := AList.update p ai (alloc_used st)\<rparr>)"
    and "get_stream st = Some (i, s) \<Longrightarrow>
            P (set_chain (st\<lparr>chain_addr := Suc (chain_addr st)\<rparr>) i
                 (ReleaseChain (chain_addr st) [] # release_chain s))"
    and "P (st\<lparr>streams := (streams st)[i := (streams st ! i)\<lparr>pending := q\<rparr>]\<rparr>)"
    and "i < length (streams st)
            \<Longrightarrow> split_chain a (release_chain (streams st ! i)) = Some (pre, c0, c1 # rest)
            \<Longrightarrow> P (set_chain st i (pre @ [c0]))"
    and "P (st\<lparr>alloc_unmap := u\<rparr>)"
proof -
  note big = assms(1) [unfolded step_stable_def, THEN conjunct2, rule_format, OF assms(2)]
  note c1 = big [THEN conjunct1, rule_format]
  note c2 = big [THEN conjunct2, THEN conjunct1, rule_format]
  note c3 = big [THEN conjunct2, THEN conjunct2, THEN conjunct1, rule_format]
  note c4 = big [THEN conjunct2, THEN conjunct2, THEN conjunct2, THEN conjunct1, rule_format]
  note c5 = big [THEN conjunct2, THEN conjunct2, THEN conjunct2, THEN conjunct2, THEN conjunct1,
      rule_format]
  note c6 = big [THEN conjunct2, THEN conjunct2, THEN conjunct2, THEN conjunct2, THEN conjunct2,
      THEN conjunct1, rule_format]
  note c7 = big [THEN conjunct2, THEN conjunct2, THEN conjunct2, THEN conjunct2, THEN conjunct2,
      THEN conjunct2, THEN conjunct1, rule_format]
  note c8 = big [THEN conjunct2, THEN conjunct2, THEN conjunct2, THEN conjunct2, THEN conjunct2,
      THEN conjunct2, THEN conjunct2, rule_format]
  show "get_stream st = Some (i, s) \<Longrightarrow> chain_pop (release_chain s) ai = Some (p, ch)
           \<Longrightarrow> P (set_chain st i ch)"
    by (rule c1)
  show "TrimWarning \<notin> set es \<Longrightarrow> P (emit st es)" by (rule c2)
  show "P (register st p ai)" by (rule c3)
  show "P (st\<lparr>alloc_used := AList.update p ai (alloc_used st)\<rparr>)" by (rule c4)
  show "get_stream st = Some (i, s) \<Longrightarrow>
            P (set_chain (st\<lparr>chain_addr := Suc (chain_addr st)\<rparr>) i
                 (ReleaseChain (chain_addr st) [] # release_chain s))"
    by (rule c5)
  show "P (st\<lparr>streams := (streams st)[i := (streams st ! i)\<lparr>pending := q\<rparr>]\<rparr>)" by (rule c6)
  show "i < length (streams st)
            \<Longrightarrow> split_chain a (release_chain (streams st ! i)) = Some (pre, c0, c1 # rest)
            \<Longrightarrow> P (set_chain st i (pre @ [c0]))"
    by (rule c7)
  show "P (st\<lparr>alloc_unmap := u\<rparr>)" by (rule c8)
qed

lemma unmap_loop_preserves:
  assumes "free_stable P" and "\<And>st p. P st \<Longrightarrow> P (snd (free st p))"
  shows "P st \<Longrightarrow> P (snd (unmap_loop free st kvs))"
proof (induction kvs arbitrary: st)
  case Nil
  then show ?case by simp
next
  case (Cons kv kvs)
  let ?st1 = "emit st [HostUnregister (snd kv)]"
  have p1: "P ?st1"
    using free_stableD(2) [OF assms(1) Cons.prems] .
  show ?case
  proof (cases "fst kv")
    case False
    then show ?thesis using Cons.IH [OF p1] by (simp add: Let_def)
  next
    case True
    obtain r st2 where f: "free ?st1 (snd kv) = (r, st2)" by (cases "free ?st1 (snd kv)")
    have p2: "P st2" using assms(2) [OF p1, of "snd kv"] f by simp
    show ?thesis
    proof (cases r)
      case (Inl e)
      then show ?thesis using True f p2 by (simp add: Let_def)
    next
      case (Inr u)
      then show ?thesis using True f Cons.IH [OF p2] by (simp add: Let_def)
    qed
  qed
qed

lemma jit_free_body_preserves:
  assumes stable: "free_stable P"
    and self: "\<And>st p. P st \<Longrightarrow> P (snd (self st p))"
    and P: "P st"
  shows "P (snd (jit_free_body self st p))"
proof (cases "p = nullptr")
  case True
  then show ?thesis using P by (simp add: jit_free_body_def)
next
  case notnull: False
  show ?thesis
  proof (cases "map_of (alloc_used st) p")
    case None
    then show ?thesis using P notnull by (simp add: jit_free_body_def)
  next
    case (Some ai)
    define mid where "mid =
      (if ai_type ai = Host then
                (Inr (), st\<lparr>alloc_free := push_back (alloc_free st) ai p\<rparr>)
              else
                (case get_stream st of
                   None \<Rightarrow>
                     (Inr (), (emit st [SyncAllDevices])
                                \<lparr>alloc_free := push_back (alloc_free st) ai p\<rparr>)
                 | Some (i, stream) \<Rightarrow>
                     if (ai_type ai \<noteq> HostAsync) = cuda stream then
                       (let st1 = push_chain st i ai p in
                        if cuda stream then
                          (let alloc_unmap_local = alloc_unmap st1;
                               st2 = st1\<lparr>alloc_unmap := []\<rparr>
                           in case unmap_loop self st2 alloc_unmap_local of
                                (Inl e, st3) \<Rightarrow> (Inl e, st3)
                              | (Inr u, st3) \<Rightarrow>
                                  if list_ex fst alloc_unmap_local
                                     \<and> map_of (alloc_used st3) p = None
                                  then (Inl UndefinedBehaviour, st3)
                                  else (Inr (), st3))
                        else (Inr (), st1))
                     else
                       (Inr (), (emit st [SyncAllDevices])
                                  \<lparr>alloc_free := push_back (alloc_free st) ai p\<rparr>)))"
    have body: "jit_free_body self st p =
       (case mid of
             (Inl e, st') \<Rightarrow> (Inl e, st')
           | (Inr u, st') \<Rightarrow>
               (Inr (), st'\<lparr>alloc_usage := (alloc_usage st')
                                (ai_type ai := alloc_usage st' (ai_type ai) - ai_size ai),
                            alloc_used := AList.delete p (alloc_used st')\<rparr>))"
      using notnull Some by (simp add: jit_free_body_def mid_def)
    have sync: "P ((emit st [SyncAllDevices])\<lparr>alloc_free := m\<rparr>)" for m
      using free_stableD(3) [OF stable free_stableD(1) [OF stable P]] .
    have pmid: "P (snd mid)"
    proof (cases "ai_type ai = Host")
      case True
      then show ?thesis using free_stableD(3) [OF stable P] by (simp add: mid_def)
    next
      case nothost: False
      show ?thesis
      proof (cases "get_stream st")
        case None
        then show ?thesis using nothost sync by (simp add: mid_def)
      next
        case (Some act)
        obtain i stream where act: "act = (i, stream)" by (cases act)
        show ?thesis
        proof (cases "(ai_type ai \<noteq> HostAsync) = cuda stream")
          case False
          then show ?thesis using nothost Some act sync by (simp add: mid_def)
        next
          case True
          have p1: "P (push_chain st i ai p)"
            using free_stableD(5) [OF stable P _ nothost True] Some act by simp
          show ?thesis
          proof (cases "cuda stream")
            case False
            then show ?thesis using nothost Some act True p1 by (simp add: mid_def Let_def)
          next
            case cu: True
            let ?st2 = "(push_chain st i ai p)\<lparr>alloc_unmap := []\<rparr>"
            have p2: "P ?st2" using free_stableD(4) [OF stable p1] .
            have p3: "P (snd (unmap_loop self ?st2 kvs))" for kvs
              using unmap_loop_preserves [OF stable self p2] .
            obtain r st3 where u: "unmap_loop self ?st2 (alloc_unmap (push_chain st i ai p)) = (r, st3)"
              by (cases "unmap_loop self ?st2 (alloc_unmap (push_chain st i ai p))")
            have "P st3" using p3 [of "alloc_unmap (push_chain st i ai p)"] u by simp
            moreover have "snd mid = st3"
              using nothost Some act True cu u
              by (cases r) (simp_all add: mid_def Let_def)
            ultimately show ?thesis by simp
          qed
        qed
      qed
    qed
    obtain r st' where m: "mid = (r, st')" by (cases mid)
    with pmid have "P st'" by simp
    then show ?thesis
      using body m free_stableD(6) [OF stable, of st'] by (cases r) simp_all
  qed
qed

lemma jit_free_inner_preserves:
  assumes "free_stable P" and "P st"
  shows "P (snd (jit_free_inner st p))"
  unfolding jit_free_inner_def
  by (rule jit_free_body_preserves [OF assms(1) _ assms(2)]) simp

lemma jit_free_preserves:
  assumes "free_stable P" and "P st"
  shows "P (snd (jit_free st p))"
  unfolding jit_free_def
  by (rule jit_free_body_preserves [OF assms(1) _ assms(2)])
     (rule jit_free_inner_preserves [OF assms(1)])

lemma jit_malloc_trim_preserves:
  assumes stable: "trim_stable P" and P: "P st"
  shows "P (snd (jit_malloc_trim st warn))"
proof -
  note fs = trim_stable_free [OF stable]
  let ?st0 = "emit st [EnterTrim warn]"
  let ?st1 = "if warn \<and> \<not> jit_malloc_trim_warned ?st0
                 then (emit ?st0 [TrimWarning])\<lparr>jit_malloc_trim_warned := True\<rparr>
                 else ?st0"
  let ?st2 = "?st1\<lparr>alloc_free := [], alloc_unmap := []\<rparr>"
  have p0: "P ?st0" using trim_stableD(1) [OF stable P] .
  have p1: "P ?st1"
  proof (cases "warn \<and> \<not> jit_malloc_trim_warned ?st0")
    case True
    then have nw: "\<not> jit_malloc_trim_warned ?st0" by blast
    show ?thesis
      by (subst if_P [OF True]) (rule trim_stableD(2) [OF stable p0 nw])
  next
    case False
    show ?thesis
      by (subst if_not_P [OF False]) (rule p0)
  qed
  have p2: "P ?st2" using free_stableD(4) [OF fs free_stableD(3) [OF fs p1]] .
  obtain r st3 where u: "unmap_loop jit_free ?st2 (alloc_unmap ?st1) = (r, st3)"
    by (cases "unmap_loop jit_free ?st2 (alloc_unmap ?st1)")
  have "P (snd (unmap_loop jit_free ?st2 (alloc_unmap ?st1)))"
    by (rule unmap_loop_preserves [OF fs jit_free_preserves [OF fs] p2])
  then have p3: "P st3" using u by simp
  have p4: "P (emit st3 (raw_frees (alloc_free ?st1)))"
    using trim_stableD(3) [OF stable p3] .
  show ?thesis
    using u p3 p4 by (cases r) (simp_all add: jit_malloc_trim_def Let_def)
qed

lemma malloc_new_preserves:
  assumes stable: "trim_stable P" and P: "P st"
  shows "P (snd (malloc_new st ai))"
proof -
  obtain r1 st1 where a1: "raw_attempt st ai = (r1, st1)" by (cases "raw_attempt st ai")
  have p1: "P st1" using trim_stableD(4) [OF stable P, of ai] a1 by simp
  show ?thesis
  proof (cases r1)
    case (Allocated p)
    then show ?thesis using a1 p1 by (simp add: malloc_new_def)
  next
    case Refused
    obtain r2 st2 where t: "jit_malloc_trim st1 trim_default_warn = (r2, st2)"
      by (cases "jit_malloc_trim st1 trim_default_warn")
    have p2: "P st2"
      using jit_malloc_trim_preserves [OF stable p1, of trim_default_warn] t by simp
    show ?thesis
    proof (cases r2)
      case (Inl e)
      then show ?thesis using a1 Refused t p2 by (simp add: malloc_new_def)
    next
      case (Inr u)
      obtain r3 st3 where a3: "raw_attempt st2 ai = (r3, st3)" by (cases "raw_attempt st2 ai")
      have p3: "P st3" using trim_stableD(4) [OF stable p2, of ai] a3 by simp
      show ?thesis using a1 Refused t Inr a3 p3 by (cases r3) (simp_all add: malloc_new_def)
    qed
  qed
qed

lemma malloc_cached_preserves:
  assumes stable: "step_stable P" and P: "P st"
  shows "P (snd (malloc_cached st ai))"
proof -
  have glob: "P (snd (case pop_back (alloc_free st) ai of
                Some (p, m) \<Rightarrow> (p, st\<lparr>alloc_free := m\<rparr>)
              | None \<Rightarrow> (nullptr, st)))"
    using P free_stableD(3) [OF step_stable_free [OF stable] P]
    by (auto split: option.splits)
  show ?thesis
  proof (cases "ai_type ai = Device \<or> ai_type ai = HostAsync")
    case False
    then show ?thesis using glob by (simp add: malloc_cached_def)
  next
    case True
    show ?thesis
    proof (cases "get_stream st")
      case None
      then show ?thesis using True glob by (simp add: malloc_cached_def)
    next
      case (Some act)
      obtain i stream where act: "act = (i, stream)" by (cases act)
      show ?thesis
      proof (cases "chain_pop (release_chain stream) ai")
        case None
        then show ?thesis using True Some act glob by (simp add: malloc_cached_def)
      next
        case (Some pc)
        obtain p ch where pc: "pc = (p, ch)" by (cases pc)
        have "P (set_chain st i ch)"
          using step_stableD(1) [OF stable P] \<open>get_stream st = Some act\<close> act Some pc by simp
        then show ?thesis
          using True \<open>get_stream st = Some act\<close> act Some pc by (simp add: malloc_cached_def)
      qed
    qed
  qed
qed

lemma jit_malloc_preserves:
  assumes stable: "step_stable P" and P: "P st"
  shows "P (snd (jit_malloc st type sz))"
proof (cases "sz = 0")
  case True
  then show ?thesis using P by (simp add: jit_malloc_def)
next
  case nz: False
  show ?thesis
  proof (cases "malloc_info st type sz")
    case (Inl e)
    then show ?thesis using nz P by (simp add: jit_malloc_def)
  next
    case (Inr ai)
    obtain p st1 where c: "malloc_cached st ai = (p, st1)" by (cases "malloc_cached st ai")
    have p1: "P st1" using malloc_cached_preserves [OF stable P, of ai] c by simp
    obtain r st2 where n: "(if p = nullptr then malloc_new st1 ai else (Inr p, st1)) = (r, st2)"
      by (cases "if p = nullptr then malloc_new st1 ai else (Inr p, st1)")
    have p2: "P st2"
      using malloc_new_preserves [OF step_stable_trim [OF stable] p1, of ai] p1 n
      by (auto split: if_splits)
    have "jit_malloc st type sz =
        (case r of Inl e \<Rightarrow> (Inl e, st2)
         | Inr p' \<Rightarrow> if p' = nullptr then (Inl OutOfMemory, st2) else (Inr p', register st2 p' ai))"
      using nz Inr c n by (simp add: jit_malloc_def)
    then show ?thesis
      using p2 step_stableD(3) [OF stable p2] by (cases r) simp_all
  qed
qed

lemma enqueue_preserves:
  assumes "step_stable P" and "P st"
  shows "P (enqueue st i cb)"
  using step_stableD(6) [OF assms] by (simp add: enqueue_def)

lemma migrate_copy_preserves:
  assumes stable: "step_stable P" and P: "P st"
  shows "P (snd (migrate_copy st i p ptr_new ai type move))"
proof -
  note fs = step_stable_free [OF stable]
  have em: "P (emit st es)" if "TrimWarning \<notin> set es" for es
    using step_stableD(2) [OF stable P that] .
  have fr: "P (snd (case jit_free st' p of
                 (Inl e, st3) \<Rightarrow> (Inl e, st3)
               | (Inr u, st3) \<Rightarrow> (Inr ptr_new, st3)))" if "P st'" for st'
    using jit_free_preserves [OF fs that, of p]
    by (auto split: prod.splits sum.splits)
  show ?thesis
    unfolding migrate_copy_def Let_def
    by (auto intro!: enqueue_preserves [OF stable] em fr)
qed

lemma jit_malloc_migrate_preserves:
  assumes stable: "step_stable P" and P: "P st"
  shows "P (snd (jit_malloc_migrate st p type move))"
proof (cases "get_stream st")
  case None
  then show ?thesis using P by (simp add: jit_malloc_migrate_def)
next
  case (Some act)
  obtain i stream where act: "act = (i, stream)" by (cases act)
  show ?thesis
  proof (cases "map_of (alloc_used st) p")
    case None
    then show ?thesis using P Some act by (simp add: jit_malloc_migrate_def)
  next
    case (Some ai)
    obtain r st1 where m: "jit_malloc st (effective_type st type) (ai_size ai) = (r, st1)"
      by (cases "jit_malloc st (effective_type st type) (ai_size ai)")
    have p1: "P st1"
      using jit_malloc_preserves [OF stable P, of "effective_type st type" "ai_size ai"] m by simp
    have c: "P (snd (migrate_copy st1 i p q ai t b))" for q t b
      using migrate_copy_preserves [OF stable p1] .
    show ?thesis
      using P \<open>get_stream st = Some act\<close> act Some m p1 c step_stableD(4) [OF stable P]
      by (cases r) (simp_all add: jit_malloc_migrate_def Let_def)
  qed
qed

lemma jit_malloc_prefetch_preserves:
  assumes stable: "step_stable P" and P: "P st"
  shows "P (snd (jit_malloc_prefetch st p dev))"
proof -
  have em: "P (emit st es)" if "TrimWarning \<notin> set es" for es
    using step_stableD(2) [OF stable P that] .
  show ?thesis
    unfolding jit_malloc_prefetch_def
    by (auto simp: P split: option.splits sum.splits intro!: em)
qed

lemma leak_report_no_warning: "TrimWarning \<notin> set (leak_report used)"
  by (auto simp: leak_report_def Let_def)

lemma jit_malloc_shutdown_preserves:
  assumes stable: "step_stable P" and P: "P st"
  shows "P (snd (jit_malloc_shutdown st))"
proof -
  obtain r st1 where t: "jit_malloc_trim st False = (r, st1)" by (cases "jit_malloc_trim st False")
  have p1: "P st1"
    using jit_malloc_trim_preserves [OF step_stable_trim [OF stable] P, of False] t by simp
  show ?thesis
    using t p1 step_stableD(2) [OF stable p1 leak_report_no_warning]
    by (cases r) (simp_all add: jit_malloc_shutdown_def)
qed

lemma jit_free_flush_preserves:
  assumes stable: "step_stable P" and P: "P st"
  shows "P (snd (jit_free_flush st))"
proof (cases "get_stream st")
  case None
  then show ?thesis using P by (simp add: jit_free_flush_def)
next
  case (Some act)
  obtain i stream where act: "act = (i, stream)" by (cases act)
  have n: "P (set_chain (st\<lparr>chain_addr := Suc (chain_addr st)\<rparr>) i
                 (ReleaseChain (chain_addr st) [] # release_chain stream))"
    using step_stableD(5) [OF stable P] Some act by simp
  show ?thesis
  proof (cases "release_chain stream")
    case Nil
    then show ?thesis using P Some act by (simp add: jit_free_flush_def)
  next
    case (Cons chain rest)
    then show ?thesis
      using P Some act n enqueue_preserves [OF stable n]
      by (simp add: jit_free_flush_def Let_def)
  qed
qed

lemma flush_callback_preserves:
  assumes stable: "step_stable P" and P: "P st"
  shows "P (snd (flush_callback st i a))"
proof (cases "i < length (streams st)")
  case False
  then show ?thesis using P by (simp add: flush_callback_def)
next
  case True
  show ?thesis
  proof (cases "split_chain a (release_chain (streams st ! i))")
    case None
    then show ?thesis using P True by (simp add: flush_callback_def)
  next
    case (Some t)
    obtain pre c0 post where t: "t = (pre, c0, post)" by (cases t)
    show ?thesis
    proof (cases post)
      case Nil
      then show ?thesis using P True Some t by (simp add: flush_callback_def)
    next
      case (Cons c1 rest)
      let ?st' = "st\<lparr>alloc_free := reclaim (entries c1) (alloc_free st)\<rparr>"
      have "P ?st'" using free_stableD(3) [OF step_stable_free [OF stable] P] .
      from step_stableD(7) [OF stable this, of i a pre c0 c1 rest]
      have "P (set_chain ?st' i (pre @ [c0]))"
        using True Some t Cons by simp
      then show ?thesis using True Some t Cons by (simp add: flush_callback_def)
    qed
  qed
qed

lemma run_callback_preserves:
  assumes stable: "step_stable P" and P: "P st"
  shows "P (snd (run_callback st i))"
proof (cases "i < length (streams st)")
  case False
  then show ?thesis using P by (simp add: run_callback_def)
next
  case True
  show ?thesis
  proof (cases "pending (streams st ! i)")
    case Nil
    then show ?thesis using P True by (simp add: run_callback_def)
  next
    case (Cons cb cbs)
    let ?st1 = "st\<lparr>streams := (streams st)[i := (streams st ! i)\<lparr>pending := cbs\<rparr>]\<rparr>"
    have p1: "P ?st1" using step_stableD(6) [OF stable P] .
    show ?thesis
    proof (cases cb)
      case (FlushCallback a)
      then show ?thesis
        using True Cons flush_callback_preserves [OF stable p1, of i a]
        by (simp add: run_callback_def Let_def)
    next
      case (UnmapCallback flag q)
      then show ?thesis
        using True Cons step_stableD(8) [OF stable p1]
        by (simp add: run_callback_def Let_def unmap_callback_def)
    qed
  qed
qed

lemma step_preserves:
  assumes stable: "step_stable P"
    and act: "\<And>st a. P st \<Longrightarrow> P (st\<lparr>active_stream := a\<rparr>)"
    and P: "P st"
  shows "P (step st op)"
proof (cases op)
  case (Malloc type sz)
  then show ?thesis using jit_malloc_preserves [OF stable P] by simp
next
  case (Free p)
  then show ?thesis using jit_free_preserves [OF step_stable_free [OF stable] P] by simp
next
  case FreeFlush
  then show ?thesis using jit_free_flush_preserves [OF stable P] by simp
next
  case (Migrate p type move)
  then show ?thesis using jit_malloc_migrate_preserves [OF stable P] by simp
next
  case (Prefetch p dev)
  then show ?thesis using jit_malloc_prefetch_preserves [OF stable P] by simp
next
  case (Trim warn)
  then show ?thesis using jit_malloc_trim_preserves [OF step_stable_trim [OF stable] P] by simp
next
  case Shutdown
  then show ?thesis using jit_malloc_shutdown_preserves [OF stable P] by simp
next
  case (RunCallback i)
  then show ?thesis using run_callback_preserves [OF stable P] by simp
next
  case (SetActive a)
  then show ?thesis using act [OF P] by simp
qed

lemma map_update_same: "f y = f (xs ! i) \<Longrightarrow> map f (xs[i := y]) = map f xs"
  by (induction xs arbitrary: i) (auto split: nat.splits)

lemma config_set_chain [simp]: "config (set_chain st i ch) = config st"
  by (simp add: config_def set_chain_def map_update_same)

lemma config_emit [simp]: "config (emit st es) = config st"
  by (simp add: config_def emit_def)

lemma config_push_chain [simp]: "config (push_chain st i ai p) = config st"
  by (simp add: push_chain_def split: list.splits) (simp add: config_def)

lemma config_register [simp]: "config (register st p ai) = config st"
  by (simp add: config_def register_def Let_def)


lemma jit_free_body_cong:
  assumes "\<And>st' kvs. alloc_unmap st' = [] \<Longrightarrow> unmap_loop f st' kvs = unmap_loop g st' kvs"
  shows "jit_free_body f st p = jit_free_body g st p"
proof -
  have "unmap_loop f ((push_chain st i ai p)\<lparr>alloc_unmap := []\<rparr>) kvs =
        unmap_loop g ((push_chain st i ai p)\<lparr>alloc_unmap := []\<rparr>) kvs" for i ai kvs
    by (rule assms) simp
  then show ?thesis
    by (simp add: jit_free_body_def Let_def split: option.split)
qed

lemma unmap_empty_stable: "free_stable (\<lambda>s. alloc_unmap s = [])"
  unfolding free_stable_def
  by (simp add: emit_def push_chain_def set_chain_def split: list.splits)

lemma jit_free_body_unmap_empty:
  assumes "alloc_unmap st = []"
  shows "jit_free_body f st p = jit_free_body g st p"
proof -
  have "alloc_unmap (push_chain st i ai p) = []" for i ai
    using assms by (simp add: push_chain_def set_chain_def split: list.splits)
  then show ?thesis
    by (simp add: jit_free_body_def Let_def split: option.split)
qed

lemma unmap_loop_inner:
  "alloc_unmap st = [] \<Longrightarrow> unmap_loop jit_free st kvs = unmap_loop jit_free_inner st kvs"
proof (induction kvs arbitrary: st)
  case Nil
  then show ?case by simp
next
  case (Cons kv kvs)
  let ?st1 = "emit st [HostUnregister (snd kv)]"
  have e: "alloc_unmap ?st1 = []" using Cons.prems by (simp add: emit_def)
  have same: "jit_free ?st1 (snd kv) = jit_free_inner ?st1 (snd kv)"
    unfolding jit_free_def jit_free_inner_def by (rule jit_free_body_unmap_empty [OF e])
  have "alloc_unmap (snd (jit_free_inner ?st1 (snd kv))) = []"
    by (rule jit_free_inner_preserves [OF unmap_empty_stable e])
  then have "unmap_loop jit_free st2 kvs = unmap_loop jit_free_inner st2 kvs"
    if "jit_free_inner ?st1 (snd kv) = (r, st2)" for r st2
    using that Cons.IH [of st2] by simp
  then show ?case
    using same Cons.IH [OF e]
    by (auto simp: Let_def split: prod.splits sum.splits)
qed

lemma jit_free_unfold: "jit_free st p = jit_free_body jit_free st p"
proof -
  have "jit_free_body jit_free st p = jit_free_body jit_free_inner st p"
    by (rule jit_free_body_cong) (rule unmap_loop_inner)
  then show ?thesis by (simp add: jit_free_def)
qed

section \<open>What a successful jit\_malloc has done\<close>

lemma get_stream_SomeD:
  "get_stream st = Some (i, s) \<Longrightarrow> i < length (streams st) \<and> s = streams st ! i"
  by (auto simp: get_stream_def split: option.splits if_splits)

lemma unused_stable: "trim_stable (\<lambda>s. map_of (alloc_used s) q = None)"
  unfolding trim_stable_def free_stable_def
  by (simp add: emit_def push_chain_def set_chain_def raw_attempt_def delete_conv'
      split: list.splits)

lemma malloc_cached_used: "alloc_used (snd (malloc_cached st ai)) = alloc_used st"
  by (auto simp: malloc_cached_def set_chain_def split: option.splits prod.splits)

lemma jit_malloc_success:
  assumes "jit_malloc st type sz = (Inr p, st')" and "sz \<noteq> 0"
  shows "\<exists>ai p0 st1 st2. malloc_info st type sz = Inr ai \<and> malloc_cached st ai = (p0, st1)
           \<and> (if p0 = nullptr then malloc_new st1 ai else (Inr p0, st1)) = (Inr p, st2)
           \<and> p \<noteq> nullptr \<and> st' = register st2 p ai"
proof (cases "malloc_info st type sz")
  case (Inl e)
  then show ?thesis using assms by (simp add: jit_malloc_def)
next
  case (Inr ai)
  obtain p0 st1 where c: "malloc_cached st ai = (p0, st1)" by (cases "malloc_cached st ai")
  obtain r st2 where n: "(if p0 = nullptr then malloc_new st1 ai else (Inr p0, st1)) = (r, st2)"
    by (cases "if p0 = nullptr then malloc_new st1 ai else (Inr p0, st1)")
  have j: "jit_malloc st type sz =
        (case r of Inl e \<Rightarrow> (Inl e, st2)
         | Inr p' \<Rightarrow> if p' = nullptr then (Inl OutOfMemory, st2) else (Inr p', register st2 p' ai))"
    using assms(2) Inr c n by (simp add: jit_malloc_def)
  show ?thesis
  proof (cases r)
    case (Inl e)
    then show ?thesis using j assms(1) by simp
  next
    case r: (Inr p')
    then have "p' \<noteq> nullptr" "p = p'" "st' = register st2 p' ai"
      using j assms(1) by (auto split: if_splits)
    then show ?thesis using Inr c n r by blast
  qed
qed

lemma map_of_emplace: "map_of m p = None \<Longrightarrow> map_of (emplace m p ai) p = Some ai"
  by (simp add: emplace_def map_add_def)

lemma jit_malloc_registers:
  assumes "jit_malloc st type sz = (Inr p, st')" and "sz \<noteq> 0"
    and "map_of (alloc_used st) p = None"
  shows "\<exists>ai. malloc_info st type sz = Inr ai \<and> map_of (alloc_used st') p = Some ai
           \<and> p \<noteq> nullptr"
proof -
  obtain ai p0 st1 st2 where s: "malloc_info st type sz = Inr ai" "malloc_cached st ai = (p0, st1)"
      "(if p0 = nullptr then malloc_new st1 ai else (Inr p0, st1)) = (Inr p, st2)"
      "p \<noteq> nullptr" "st' = register st2 p ai"
    using jit_malloc_success [OF assms(1,2)] by blast
  have u1: "map_of (alloc_used st1) p = None"
    using malloc_cached_used [of st ai] s(2) assms(3) by simp
  have "map_of (alloc_used (snd (malloc_new st1 ai))) p = None"
    by (rule malloc_new_preserves [OF unused_stable u1])
  then have "map_of (alloc_used st2) p = None"
    using s(3) u1 by (auto split: if_splits)
  then have "map_of (alloc_used st') p = Some ai"
    using s(5) by (simp add: register_def Let_def map_of_emplace)
  then show ?thesis using s(1,4) by blast
qed

lemma malloc_info_size:
  "malloc_info st type sz = Inr ai \<Longrightarrow>
     ai_size ai = rounded_size st type sz \<and> ai_type ai = effective_type st type"
  by (auto simp: malloc_info_def Let_def split: option.splits if_splits)


section \<open>What the operations do not change\<close>








section \<open>Rounding to a power of two\<close>

lemma smeared_start: "smeared 1 y y"
  by (simp add: smeared_def)

lemma smeared_step:
  assumes "smeared m x y"
  shows "smeared (2 * m) (x OR drop_bit m x) y"
  unfolding smeared_def
proof
  fix n
  have "bit (x OR drop_bit m x) n \<longleftrightarrow> bit x n \<or> bit x (m + n)"
    by (simp add: bit_or_iff bit_drop_bit_eq)
  also have "\<dots> \<longleftrightarrow> (\<exists>k<m. bit y (n + k)) \<or> (\<exists>k<m. bit y (m + n + k))"
    using assms by (simp add: smeared_def)
  also have "\<dots> \<longleftrightarrow> (\<exists>k<2 * m. bit y (n + k))"
  proof
    assume "(\<exists>k<m. bit y (n + k)) \<or> (\<exists>k<m. bit y (m + n + k))"
    then show "\<exists>k<2 * m. bit y (n + k)"
    proof
      assume "\<exists>k<m. bit y (n + k)"
      then obtain k where "k < m" "bit y (n + k)" by blast
      then show ?thesis by (intro exI [of _ k]) simp
    next
      assume "\<exists>k<m. bit y (m + n + k)"
      then obtain k where "k < m" "bit y (m + n + k)" by blast
      then show ?thesis by (intro exI [of _ "m + k"]) (simp add: ac_simps)
    qed
  next
    assume "\<exists>k<2 * m. bit y (n + k)"
    then obtain k where k: "k < 2 * m" "bit y (n + k)" by blast
    show "(\<exists>k<m. bit y (n + k)) \<or> (\<exists>k<m. bit y (m + n + k))"
    proof (cases "k < m")
      case True
      with k show ?thesis by blast
    next
      case False
      with k have "k - m < m" "bit y (m + n + (k - m))" by (simp_all add: ac_simps)
      then show ?thesis by blast
    qed
  qed
  finally show "bit (x OR drop_bit m x) n \<longleftrightarrow> (\<exists>k<2 * m. bit y (n + k))" .
qed

lemma round_pow2_smeared:
  "\<exists>s. round_pow2 x = s + 1 \<and> smeared 64 s (x - 1)"
proof -
  let ?y = "x - 1"
  let ?x1 = "?y OR drop_bit 1 ?y"
  let ?x2 = "?x1 OR drop_bit 2 ?x1"
  let ?x3 = "?x2 OR drop_bit 4 ?x2"
  let ?x4 = "?x3 OR drop_bit 8 ?x3"
  let ?x5 = "?x4 OR drop_bit 16 ?x4"
  let ?x6 = "?x5 OR drop_bit 32 ?x5"
  have "smeared 2 ?x1 ?y" using smeared_step [OF smeared_start, of ?y] by simp
  then have "smeared 4 ?x2 ?y" using smeared_step [of 2 ?x1 ?y] by simp
  then have "smeared 8 ?x3 ?y" using smeared_step [of 4 ?x2 ?y] by simp
  then have "smeared 16 ?x4 ?y" using smeared_step [of 8 ?x3 ?y] by simp
  then have "smeared 32 ?x5 ?y" using smeared_step [of 16 ?x4 ?y] by simp
  then have "smeared 64 ?x6 ?y" using smeared_step [of 32 ?x5 ?y] by simp
  moreover have "round_pow2 x = ?x6 + 1"
    by (simp add: round_pow2_def Let_def)
  ultimately show ?thesis by blast
qed

lemma smeared_mask:
  fixes y :: size_t
  assumes sm: "smeared 64 s y"
    and lo: "L = 0 \<or> 2 ^ (L - 1) \<le> unat y"
    and hi: "unat y < 2 ^ L"
  shows "s = mask L"
proof (rule bit_eqI)
  fix n
  assume "possible_bit TYPE(size_t) n"
  then have n64: "n < 64" by (simp add: possible_bit_word)
  have high: "\<not> bit y m" if "L \<le> m" for m
  proof -
    have "(2::nat) ^ L \<le> 2 ^ m"
      using that by (simp add: power_increasing)
    with hi have "unat y < 2 ^ m" by (rule less_le_trans)
    then have "unat y div 2 ^ m = 0" by simp
    then have "\<not> bit (unat y) m" by (simp add: bit_iff_odd)
    then show ?thesis by (simp add: bit_unsigned_iff)
  qed
  have top: "bit y (L - 1)" if "0 < L"
  proof -
    from that lo have l1: "2 ^ (L - 1) * 1 \<le> unat y" by simp
    from that have "(2::nat) ^ L = 2 ^ (L - 1) * Suc 1"
      by (cases L) simp_all
    with hi have l2: "unat y < 2 ^ (L - 1) * Suc 1" by simp
    from l1 l2 have "unat y div 2 ^ (L - 1) = 1"
      by (rule div_nat_eqI)
    then have "bit (unat y) (L - 1)" by (simp add: bit_iff_odd)
    then show ?thesis by (simp add: bit_unsigned_iff)
  qed
  have "bit s n \<longleftrightarrow> n < L"
  proof
    assume "bit s n"
    with sm obtain k where "bit y (n + k)" by (auto simp: smeared_def)
    with high [of "n + k"] show "n < L" by (cases "n < L") auto
  next
    assume nL: "n < L"
    then have "bit y (L - 1)" using top by simp
    moreover from this have "L - 1 < 64"
      using bit_imp_le_length [of y "L - 1"] by simp
    ultimately have "L - 1 - n < 64" "bit y (n + (L - 1 - n))" using nL by simp_all
    then show "bit s n" using sm unfolding smeared_def by blast
  qed
  then show "bit s n \<longleftrightarrow> bit (mask L :: size_t) n"
    using n64 by (simp add: bit_mask_iff possible_bit_word)
qed



lemma round_pow2_spec:
  fixes x :: size_t
  assumes "x \<noteq> 0" and "unat x \<le> 2 ^ 63"
  shows "\<exists>k\<le>63. round_pow2 x = 2 ^ k \<and> unat x \<le> 2 ^ k \<and> (0 < k \<longrightarrow> 2 ^ (k - 1) < unat x)"
proof -
  obtain s where s: "round_pow2 x = s + 1" "smeared 64 s (x - 1)"
    using round_pow2_smeared by blast
  let ?y = "unat (x - 1)"
  have y: "?y = unat x - 1"
    using assms(1) by (simp add: unat_minus_one)
  have x_pos: "0 < unat x"
    using assms(1) by (simp add: unat_gt_0)
  define L where "L = (LEAST l. ?y < 2 ^ l)"
  have "?y < 2 ^ 63"
    using y assms(2) x_pos by simp
  then have L63: "L \<le> 63" unfolding L_def by (rule Least_le)
  have hi: "?y < 2 ^ L"
    unfolding L_def by (rule LeastI [of "\<lambda>l. ?y < 2 ^ l" 63]) fact
  have lo: "L = 0 \<or> 2 ^ (L - 1) \<le> ?y"
  proof (cases L)
    case 0
    then show ?thesis by simp
  next
    case (Suc l)
    have "\<not> ?y < 2 ^ l"
      using not_less_Least [of l "\<lambda>l. ?y < 2 ^ l"] Suc by (simp add: L_def)
    then show ?thesis using Suc by simp
  qed
  have "s = mask L"
    using smeared_mask [OF s(2) lo hi] .
  then have r: "round_pow2 x = 2 ^ L"
    using s(1) by (simp add: mask_eq_exp_minus_1)
  have "unat x \<le> 2 ^ L"
    using hi y x_pos by simp
  moreover have "0 < L \<longrightarrow> 2 ^ (L - 1) < unat x"
    using lo y x_pos by auto
  ultimately show ?thesis using r L63 by blast
qed

lemma packet_size_bounds:
  "0 < unat (packet_size st type) \<and> unat (packet_size st type) < 2 ^ 35"
proof (cases "(type \<noteq> Host \<and> type \<noteq> HostAsync) \<or> jit_llvm_vector_width st < 16")
  case True
  then show ?thesis by (simp add: packet_size_def)
next
  case False
  let ?w = "jit_llvm_vector_width st"
  have w: "unat ?w < 2 ^ 32"
    using unsigned_less [of ?w] by simp
  have "16 \<le> unat ?w"
    using False by (simp add: word_less_nat_alt not_less)
  have u: "unat (ucast ?w :: size_t) = unat ?w"
    using w by (simp add: unsigned_ucast_eq take_bit_nat_eq_self)
  have "unat (ucast ?w :: size_t) * unat (8 :: size_t) < 2 ^ LENGTH(64)"
    using w u by simp
  then have "unat (ucast ?w * 8 :: size_t) = unat ?w * 8"
    using u by (simp add: unat_mult_lem [THEN iffD1])
  then show ?thesis using False w \<open>16 \<le> unat ?w\<close> by (simp add: packet_size_def)
qed

lemma round_packet_eq:
  "round_packet st type sz = (sz + packet_size st type - 1) div packet_size st type * packet_size st type"
proof (cases "(type \<noteq> Host \<and> type \<noteq> HostAsync) \<or> jit_llvm_vector_width st < 16")
  case True
  have "sz + 64 - 1 = sz + 63" by simp
  with True show ?thesis by (simp only: round_packet_def packet_size_def if_True)
next
  case False
  then show ?thesis by (simp only: round_packet_def packet_size_def if_False)
qed

lemma round_packet_unat:
  fixes sz :: size_t
  assumes "sz \<noteq> 0"
    and "(unat sz + unat (packet_size st type) - 1) div unat (packet_size st type)
           * unat (packet_size st type) \<le> 2 ^ 63"
  shows "unat (round_packet st type sz) =
           (unat sz + unat (packet_size st type) - 1) div unat (packet_size st type)
             * unat (packet_size st type)"
proof -
  let ?a = "unat (packet_size st type)"
  let ?n = "unat sz"
  let ?m = "(?n + ?a - 1) div ?a * ?a"
  have a: "0 < ?a" "?a < 2 ^ 35" using packet_size_bounds [of st type] by simp_all
  have n: "0 < ?n" using assms(1) by (simp add: unat_gt_0)
  have "?n + ?a - 1 < ?m + ?a"
    using a(1) by (metis div_mult_mod_eq add_less_cancel_left mod_less_divisor)
  moreover have "(2::nat) ^ 63 + 2 ^ 35 < 2 ^ 64" by simp
  ultimately have "?n + ?a < 2 ^ 64"
    using assms(2) a(2) by linarith
  then have "?n + ?a < 2 ^ LENGTH(64)" by simp
  then have sum: "unat (sz + packet_size st type) = ?n + ?a"
    by (rule unat_add_lem [THEN iffD1])
  have "0 < unat (sz + packet_size st type)"
    using sum n by simp
  then have "sz + packet_size st type \<noteq> 0"
    by (simp add: unat_gt_0)
  then have "unat (sz + packet_size st type - 1) = ?n + ?a - 1"
    using sum by (simp add: unat_minus_one)
  then have q: "unat ((sz + packet_size st type - 1) div packet_size st type) = (?n + ?a - 1) div ?a"
    by (simp add: unat_div)
  have "(2::nat) ^ 63 < 2 ^ LENGTH(64)" by simp
  with assms(2) have "?m < 2 ^ LENGTH(64)"
    by (rule le_less_trans)
  then have "unat ((sz + packet_size st type - 1) div packet_size st type) * ?a < 2 ^ LENGTH(64)"
    by (simp only: q)
  then have "unat ((sz + packet_size st type - 1) div packet_size st type * packet_size st type) =
      unat ((sz + packet_size st type - 1) div packet_size st type) * ?a"
    by (rule unat_mult_lem [THEN iffD1])
  then have "unat ((sz + packet_size st type - 1) div packet_size st type * packet_size st type) = ?m"
    by (simp only: q)
  then show ?thesis by (simp only: round_packet_eq)
qed

lemma unat_pow2: "k \<le> 63 \<Longrightarrow> unat (2 ^ k :: 64 word) = 2 ^ k"
proof -
  assume k: "k \<le> 63"
  have "take_bit 64 ((2::nat) ^ k) = 2 ^ k"
    by (rule take_bit_nat_eq_self, rule power_strict_increasing) (use k in simp_all)
  moreover have "unat (2 ^ k :: 64 word) = take_bit 64 ((2::nat) ^ k)"
    using unsigned_push_bit_eq [where 'a = nat and 'b = 64, of k 1]
    by (simp add: push_bit_of_1)
  ultimately show ?thesis by simp
qed

lemma ceil_ge: "0 < a \<Longrightarrow> (n::nat) \<le> (n + a - 1) div a * a"
proof -
  assume a: "0 < a"
  have "n + a - 1 = (n + a - 1) div a * a + (n + a - 1) mod a" by simp
  moreover have "(n + a - 1) mod a < a" using a by simp
  ultimately have "n + a - 1 < (n + a - 1) div a * a + a" by linarith
  then show ?thesis using a by linarith
qed

section \<open>Zero-size requests\<close>

text \<open>
  C9. For every kind and whatever the active stream is, \<^verbatim>\<open>jit_malloc(kind, 0)\<close> returns
  the null pointer and leaves the whole state as it was: nothing is registered in
  \<open>alloc_used\<close>, no \<open>AllocInfo\<close> is built, the usage and watermark counters and all
  caches are unchanged.
\<close>

theorem jit_malloc_zero_size: "jit_malloc st type 0 = (Inr nullptr, st)"
  by (simp add: jit_malloc_def)

section \<open>Migration between Host and HostAsync\<close>

text \<open>
  C8. With TBB compiled in and an active stream, for a pointer \<open>p\<close> registered with
  kind Host (HostAsync), \<^verbatim>\<open>jit_malloc_migrate(p, HostAsync, move)\<close> (respectively Host)
  with \<open>move \<noteq> 0\<close> returns \<open>p\<close> itself; the only change of the state is the kind of
  \<open>p\<close>'s entry of \<open>alloc_used\<close>, rewritten in place: no raw allocator call, no copy,
  no free, and nothing enters the log.
\<close>

theorem migrate_host_async_in_place:
  assumes "ENOKI_ENABLE_TBB st"
    and "get_stream st = Some (i, stream)"
    and "map_of (alloc_used st) p = Some ai"
    and "(ai_type ai = Host \<and> type = HostAsync) \<or> (ai_type ai = HostAsync \<and> type = Host)"
    and "move \<noteq> 0"
  shows "jit_malloc_migrate st p type move =
           (Inr p, st\<lparr>alloc_used :=
              AList.update p (AllocInfo type (ai_device ai) (ai_size ai)) (alloc_used st)\<rparr>)
         \<and> map_of (alloc_used (snd (jit_malloc_migrate st p type move))) p =
             Some (AllocInfo type (ai_device ai) (ai_size ai))"
  using assms by (auto simp: jit_malloc_migrate_def update_conv')

theorem migrate_host_async_in_place_witness:
  "jit_malloc_migrate (snd (jit_malloc (boot always_4096 (Some 1)) Host 64)) 4096 HostAsync 1 =
     (Inr 4096, (snd (jit_malloc (boot always_4096 (Some 1)) Host 64))
        \<lparr>alloc_used := AList.update 4096 (AllocInfo HostAsync 0 64)
           (alloc_used (snd (jit_malloc (boot always_4096 (Some 1)) Host 64)))\<rparr>)
   \<and> map_of (alloc_used (snd (jit_malloc_migrate
         (snd (jit_malloc (boot always_4096 (Some 1)) Host 64)) 4096 HostAsync 1))) 4096 =
       Some (AllocInfo HostAsync 0 64)"
proof -
  let ?st = "snd (jit_malloc (boot always_4096 (Some 1)) Host 64)"
  have h1: "ENOKI_ENABLE_TBB ?st"
    by (simp add: model_defs boot_defs)
  have h2: "get_stream ?st = Some (1, \<lparr>cuda = False, device = 0, release_chain = [], pending = []\<rparr>)"
    by (simp add: model_defs boot_defs)
  have h3: "map_of (alloc_used ?st) 4096 = Some (AllocInfo Host 0 64)"
    by (simp add: model_defs boot_defs)
  have h4: "(ai_type (AllocInfo Host 0 64) = Host \<and> HostAsync = HostAsync)
            \<or> (ai_type (AllocInfo Host 0 64) = HostAsync \<and> HostAsync = Host)"
    by simp
  have h5: "(1 :: 32 word) \<noteq> 0"
    by simp
  from migrate_host_async_in_place [OF h1 h2 h3 h4 h5] show ?thesis
    unfolding AllocInfo.sel .
qed

section \<open>Prefetch\<close>

text \<open>
  C4, at the failing input. With the CUDA stream active and the managed pointer 4096
  registered, \<^verbatim>\<open>jit_malloc_prefetch(ptr, -2)\<close> does not prefetch to every GPU: the
  range check \<^verbatim>\<open>(size_t) device >= state.devices.size()\<close> comes before the test
  \<^verbatim>\<open>device == -2\<close>, and the call raises "invalid device ID" with nothing issued.
\<close>

theorem prefetch_broadcast_rejected:
  "jit_malloc_prefetch managed_state 4096 (- 2) = (Inl InvalidDevice, managed_state)"
  by (simp add: managed_state_eval jit_malloc_prefetch_def get_stream_def boot_defs)

text \<open>
  The other two cases of the claim hold: \<open>-1\<close> prefetches to the CPU, an index into
  the registry to the device registered there.
\<close>

lemma prefetch_cpu_and_index:
  "jit_malloc_prefetch managed_state 4096 (- 1) =
     (Inr (), emit managed_state [PrefetchAsync 4096 64 CU_DEVICE_CPU])
   \<and> jit_malloc_prefetch managed_state 4096 0 =
     (Inr (), emit managed_state [PrefetchAsync 4096 64 0])"
  by (simp add: managed_state_eval jit_malloc_prefetch_def get_stream_def boot_defs emit_def
      CU_DEVICE_CPU_def)

text \<open>
  For any registry of realistic length, \<open>-2\<close> never reaches the broadcast branch.
\<close>

lemma prefetch_minus_two_never_broadcasts:
  assumes "length (devices st) \<le> 2 ^ 64 - 2"
  shows "fst (jit_malloc_prefetch st p (- 2)) \<in> {Inl NoCudaStream, Inl InvalidDevice}"
  using assms by (auto simp: jit_malloc_prefetch_def split: option.splits)

section \<open>Usage counters\<close>

text \<open>
  C1, at the failing input. After \<^verbatim>\<open>jit_malloc(Host, 64)\<close> the counters agree with
  \<open>alloc_used\<close>. \<^verbatim>\<open>jit_malloc_migrate(ptr, HostAsync, 1)\<close> then rewrites the kind of the
  entry in place and leaves \<^verbatim>\<open>alloc_usage\<close> alone: 64 bytes stay counted as Host
  where no Host entry is left, and the HostAsync entry of 64 bytes is counted as 0.
\<close>

theorem usage_broken_by_in_place_migrate:
  "usage_consistent host_state
   \<and> fst (jit_malloc_migrate host_state 4096 HostAsync 1) = Inr 4096
   \<and> alloc_usage (snd (jit_malloc_migrate host_state 4096 HostAsync 1)) Host = 64
   \<and> usage_sum (alloc_used (snd (jit_malloc_migrate host_state 4096 HostAsync 1))) Host = 0
   \<and> alloc_usage (snd (jit_malloc_migrate host_state 4096 HostAsync 1)) HostAsync = 0
   \<and> usage_sum (alloc_used (snd (jit_malloc_migrate host_state 4096 HostAsync 1))) HostAsync = 64
   \<and> \<not> usage_consistent (snd (jit_malloc_migrate host_state 4096 HostAsync 1))"
  by (simp add: host_state_eval jit_malloc_migrate_def get_stream_def boot_defs
      usage_consistent_def usage_sum_def all_types_def)

theorem usage_broken_by_in_place_migrate_witness:
  "usage_consistent host_state
   \<and> \<not> usage_consistent (snd (jit_malloc_migrate host_state 4096 HostAsync 1))"
proof -
  note t = usage_broken_by_in_place_migrate
  from t [THEN conjunct1]
    t [THEN conjunct2, THEN conjunct2, THEN conjunct2, THEN conjunct2, THEN conjunct2,
       THEN conjunct2]
  show ?thesis by (intro conjI)
qed

section \<open>The size of the AllocInfo\<close>

text \<open>
  C5, as stated, fails at the top of the range: for the request \<open>2^64 - 1\<close> the
  rounding to a multiple of 64 wraps around to 0 and \<^verbatim>\<open>round_pow2(0)\<close> is 0, so the
  \<^verbatim>\<open>AllocInfo\<close> that \<^verbatim>\<open>jit_malloc\<close> registers has size 0, which is below the request.
\<close>

theorem jit_malloc_size_wraps:
  "fst (jit_malloc (boot always_4096 (Some 1)) Host (- 1)) = Inr 4096
   \<and> map_of (alloc_used (snd (jit_malloc (boot always_4096 (Some 1)) Host (- 1)))) 4096 =
       Some (AllocInfo Host 0 0)
   \<and> \<not> (- 1 :: size_t) \<le> ai_size (AllocInfo Host 0 0)"
  by (simp add: model_defs boot_defs)

text \<open>
  C5, amended. For a request \<open>sz > 0\<close> whose rounding to a multiple of the packet size
  (64 bytes, or \<^verbatim>\<open>jit_llvm_vector_width * 8\<close> for Host and HostAsync when the width is
  at least 16) does not exceed \<open>2^63\<close>, a successful \<^verbatim>\<open>jit_malloc\<close> that returns a
  pointer not registered before registers it with an \<^verbatim>\<open>AllocInfo\<close> whose size is
  \<^verbatim>\<open>round_pow2\<close> of that multiple: a power of two \<open>2^k\<close>, the least one that is not
  below the multiple, and not below \<open>sz\<close>.
\<close>

theorem jit_malloc_size_power_of_two:
  assumes "sz \<noteq> 0"
    and "(unat sz + unat (packet_size st type) - 1) div unat (packet_size st type)
           * unat (packet_size st type) \<le> 2 ^ 63"
    and "jit_malloc st type sz = (Inr p, st')"
    and "map_of (alloc_used st) p = None"
  shows "\<exists>ai k. map_of (alloc_used st') p = Some ai
           \<and> ai_size ai = round_pow2 (round_packet st type sz)
           \<and> unat (round_packet st type sz) =
                (unat sz + unat (packet_size st type) - 1) div unat (packet_size st type)
                  * unat (packet_size st type)
           \<and> k \<le> 63 \<and> ai_size ai = 2 ^ k
           \<and> unat (round_packet st type sz) \<le> 2 ^ k
           \<and> (0 < k \<longrightarrow> 2 ^ (k - 1) < unat (round_packet st type sz))
           \<and> sz \<le> ai_size ai"
proof -
  let ?a = "unat (packet_size st type)"
  let ?x = "round_packet st type sz"
  obtain ai where ai: "malloc_info st type sz = Inr ai" "map_of (alloc_used st') p = Some ai"
    using jit_malloc_registers [OF assms(3) assms(1) assms(4)] by blast
  have size: "ai_size ai = round_pow2 ?x"
    using malloc_info_size [OF ai(1)] by (simp add: rounded_size_def)
  have m: "unat ?x = (unat sz + ?a - 1) div ?a * ?a"
    by (rule round_packet_unat [OF assms(1,2)])
  have "0 < ?a" using packet_size_bounds [of st type] by simp
  then have ge: "unat sz \<le> unat ?x"
    using m ceil_ge [of ?a "unat sz"] by simp
  have "0 < unat sz" using assms(1) by (simp add: unat_gt_0)
  then have "0 < unat ?x" using ge by simp
  then have nz: "?x \<noteq> 0" by (simp add: unat_gt_0)
  have le: "unat ?x \<le> 2 ^ 63" using m assms(2) by simp
  obtain k where k: "k \<le> 63" "round_pow2 ?x = 2 ^ k" "unat ?x \<le> 2 ^ k"
      "0 < k \<longrightarrow> 2 ^ (k - 1) < unat ?x"
    using round_pow2_spec [OF nz le] by blast
  have "unat sz \<le> unat (2 ^ k :: size_t)"
    using ge k(3) unat_pow2 [OF k(1)] by simp
  then have sz_le: "sz \<le> ai_size ai"
    using size k(2) by (simp add: word_le_nat_alt)
  have sizek: "ai_size ai = 2 ^ k"
    using size k(2) by simp
  from ai(2) size m k(1) sizek k(3) k(4) sz_le
  have "map_of (alloc_used st') p = Some ai
           \<and> ai_size ai = round_pow2 (round_packet st type sz)
           \<and> unat (round_packet st type sz) =
                (unat sz + unat (packet_size st type) - 1) div unat (packet_size st type)
                  * unat (packet_size st type)
           \<and> k \<le> 63 \<and> ai_size ai = 2 ^ k
           \<and> unat (round_packet st type sz) \<le> 2 ^ k
           \<and> (0 < k \<longrightarrow> 2 ^ (k - 1) < unat (round_packet st type sz))
           \<and> sz \<le> ai_size ai"
    by (intro conjI)
  then show ?thesis by (intro exI)
qed

theorem jit_malloc_size_power_of_two_witness:
  "\<exists>ai k. map_of (alloc_used (snd (jit_malloc (boot always_4096 (Some 1)) Host 100))) 4096 = Some ai
           \<and> ai_size ai = round_pow2 (round_packet (boot always_4096 (Some 1)) Host 100)
           \<and> unat (round_packet (boot always_4096 (Some 1)) Host 100) =
                (unat (100 :: size_t) + unat (packet_size (boot always_4096 (Some 1)) Host) - 1)
                  div unat (packet_size (boot always_4096 (Some 1)) Host)
                  * unat (packet_size (boot always_4096 (Some 1)) Host)
           \<and> k \<le> 63 \<and> ai_size ai = 2 ^ k
           \<and> unat (round_packet (boot always_4096 (Some 1)) Host 100) \<le> 2 ^ k
           \<and> (0 < k \<longrightarrow> 2 ^ (k - 1) < unat (round_packet (boot always_4096 (Some 1)) Host 100))
           \<and> (100 :: size_t) \<le> ai_size ai"
proof -
  let ?st = "boot always_4096 (Some 1)"
  have h1: "(100 :: size_t) \<noteq> 0" by simp
  have h2: "(unat (100 :: size_t) + unat (packet_size ?st Host) - 1) div unat (packet_size ?st Host)
           * unat (packet_size ?st Host) \<le> 2 ^ 63"
    by (simp add: packet_size_def boot_defs)
  have "fst (jit_malloc ?st Host 100) = Inr 4096"
    by (simp add: model_defs boot_defs)
  then have h3: "jit_malloc ?st Host 100 = (Inr 4096, snd (jit_malloc ?st Host 100))"
    by (simp add: prod_eq_iff)
  have h4: "map_of (alloc_used ?st) 4096 = None"
    by (simp add: boot_defs)
  from jit_malloc_size_power_of_two [OF h1 h2 h3 h4] show ?thesis .
qed

section \<open>Unsupported migrations\<close>

text \<open>
  C10, as stated, fails for a target kind HostAsync: with TBB compiled in and the CUDA
  stream active, migrating the device pointer 4096 to HostAsync fails inside
  \<^verbatim>\<open>jit_malloc\<close>, which
  raises the wrong-backend error for a HostAsync request on a CUDA stream; the
  unsupported-migration error is not reached and the state is unchanged.
\<close>

theorem migrate_to_host_async_on_gpu_stream:
  "jit_malloc_migrate device_state 4096 HostAsync 0 = (Inl WrongBackend, device_state)"
  by (simp add: device_state_eval jit_malloc_migrate_def model_defs boot_defs)

text \<open>
  C10, amended. With a CUDA stream active, for a registered pointer of kind HostAsync
  (of nonzero size), a target kind other than HostAsync and outside the in-place fast
  path: when the \<^verbatim>\<open>jit_malloc\<close> of the destination succeeds with a pointer not
  registered before, \<^verbatim>\<open>jit_malloc_migrate\<close> raises the unsupported-migration error in
  the state that \<^verbatim>\<open>jit_malloc\<close> left, in which the destination is registered in
  \<open>alloc_used\<close> with the target kind: the call fails and the state is modified.
\<close>

theorem migrate_unsupported_after_malloc:
  assumes "get_stream st = Some (i, stream)" and "cuda stream"
    and "map_of (alloc_used st) p = Some ai" and "ai_type ai = HostAsync"
    and "type \<noteq> HostAsync" and "ai_size ai \<noteq> 0"
    and "\<not> (ENOKI_ENABLE_TBB st \<and> type = Host \<and> move \<noteq> 0)"
    and "jit_malloc st type (ai_size ai) = (Inr ptr_new, st1)"
    and "map_of (alloc_used st) ptr_new = None"
  shows "jit_malloc_migrate st p type move = (Inl UnsupportedMigration, st1)
         \<and> (\<exists>ai'. map_of (alloc_used st1) ptr_new = Some ai' \<and> ai_type ai' = type)
         \<and> alloc_used st1 \<noteq> alloc_used st"
proof -
  have eff: "effective_type st type = type"
    using assms(5) by (simp add: effective_type_def)
  have "jit_malloc_migrate st p type move = (Inl UnsupportedMigration, st1)"
    using assms(1-5,7,8) eff by (auto simp: jit_malloc_migrate_def Let_def)
  moreover obtain ai' where ai': "malloc_info st type (ai_size ai) = Inr ai'"
      "map_of (alloc_used st1) ptr_new = Some ai'"
    using jit_malloc_registers [OF assms(8) assms(6) assms(9)] by blast
  moreover have "ai_type ai' = type"
    using malloc_info_size [OF ai'(1)] eff by simp
  moreover have "alloc_used st1 \<noteq> alloc_used st"
    using ai'(2) assms(9) by auto
  ultimately show ?thesis by blast
qed

theorem migrate_unsupported_after_malloc_witness:
  "jit_malloc_migrate async_state 4096 Device 0 =
     (Inl UnsupportedMigration, snd (jit_malloc async_state Device 64))
   \<and> (\<exists>ai'. map_of (alloc_used (snd (jit_malloc async_state Device 64))) 8192 = Some ai'
        \<and> ai_type ai' = Device)
   \<and> alloc_used (snd (jit_malloc async_state Device 64)) \<noteq> alloc_used async_state"
proof -
  have h1: "get_stream async_state =
      Some (0, \<lparr>cuda = True, device = 0, release_chain = [], pending = []\<rparr>)"
    by (simp add: async_state_eval get_stream_def boot_defs)
  have h2: "cuda \<lparr>cuda = True, device = 0, release_chain = [], pending = []\<rparr>"
    by simp
  have h3: "map_of (alloc_used async_state) 4096 = Some (AllocInfo HostAsync 0 64)"
    by (simp add: async_state_eval boot_defs)
  have h4: "ai_type (AllocInfo HostAsync 0 64) = HostAsync" by simp
  have h5: "Device \<noteq> HostAsync" by simp
  have h6: "ai_size (AllocInfo HostAsync 0 64) \<noteq> 0" by simp
  have h7: "\<not> (ENOKI_ENABLE_TBB async_state \<and> Device = Host \<and> (0 :: 32 word) \<noteq> 0)" by simp
  have "fst (jit_malloc async_state Device 64) = Inr 8192"
    by (simp add: async_state_eval model_defs boot_defs bump_def)
  then have h8: "jit_malloc async_state Device (ai_size (AllocInfo HostAsync 0 64)) =
      (Inr 8192, snd (jit_malloc async_state Device 64))"
    by (simp add: prod_eq_iff)
  have h9: "map_of (alloc_used async_state) 8192 = None"
    by (simp add: async_state_eval boot_defs)
  from migrate_unsupported_after_malloc [OF h1 h2 h3 h4 h5 h6 h7 h8 h9] show ?thesis .
qed

text \<open>
  The target kind HostAsync, with TBB compiled in: for a registered pointer of another
  kind and of nonzero size, outside the in-place fast path, the \<^verbatim>\<open>jit_malloc\<close> of the
  destination raises the wrong-backend error on a CUDA stream and the state is
  unchanged.
\<close>

lemma migrate_to_host_async_wrong_backend:
  assumes "ENOKI_ENABLE_TBB st" and "get_stream st = Some (i, stream)" and "cuda stream"
    and "map_of (alloc_used st) p = Some ai" and "ai_type ai \<noteq> HostAsync"
    and "\<not> (ai_type ai = Host \<and> move \<noteq> 0)" and "ai_size ai \<noteq> 0"
  shows "jit_malloc_migrate st p HostAsync move = (Inl WrongBackend, st)"
proof -
  have eff: "effective_type st HostAsync = HostAsync"
    using assms(1) by (simp add: effective_type_def)
  have "malloc_info st HostAsync (ai_size ai) = Inl WrongBackend"
    using assms(2,3) eff by (simp add: malloc_info_def Let_def)
  then have "jit_malloc st HostAsync (ai_size ai) = (Inl WrongBackend, st)"
    using assms(7) by (simp add: jit_malloc_def)
  then show ?thesis
    using assms(1-6) eff by (auto simp: jit_malloc_migrate_def Let_def)
qed

section \<open>Kinds of the pointers in release chains\<close>

lemma chains_hold_kinds:
  "chains_hold chain_kinds st \<longleftrightarrow>
     (\<forall>s\<in>set (streams st). \<forall>c\<in>set (release_chain s). \<forall>kv\<in>set (entries c).
        snd kv = [] \<or> (ai_type (fst kv) \<noteq> Host \<and> (ai_type (fst kv) = HostAsync) = (\<not> cuda s)))"
  by (simp add: chains_hold_def chain_kinds_def list_all_iff)

lemma chains_hold_streams:
  assumes "chains_hold chain_kinds st"
    and "i < length (streams st) \<Longrightarrow> cuda y = cuda (streams st ! i)"
    and "i < length (streams st) \<Longrightarrow>
           \<forall>c\<in>set (release_chain y). \<forall>kv\<in>set (entries c).
             snd kv = [] \<or> (ai_type (fst kv) \<noteq> Host
                \<and> (ai_type (fst kv) = HostAsync) = (\<not> cuda (streams st ! i)))"
    and "streams st' = (streams st)[i := y]"
  shows "chains_hold chain_kinds st'"
proof (cases "i < length (streams st)")
  case False
  then have "streams st' = streams st" using assms(4) by (simp add: list_update_beyond)
  then show ?thesis using assms(1) by (simp add: chains_hold_kinds)
next
  case True
  have "set ((streams st)[i := y]) \<subseteq> insert y (set (streams st))"
    by (rule set_update_subset_insert)
  then show ?thesis
    using assms(1) assms(2) [OF True] assms(3) [OF True] assms(4)
    unfolding chains_hold_kinds by auto
qed

lemma chains_hold_node:
  assumes "chains_hold chain_kinds st" and "i < length (streams st)"
    and "c \<in> set (release_chain (streams st ! i))" and "kv \<in> set (entries c)"
  shows "snd kv = [] \<or> (ai_type (fst kv) \<noteq> Host
           \<and> (ai_type (fst kv) = HostAsync) = (\<not> cuda (streams st ! i)))"
  using assms unfolding chains_hold_kinds by (meson nth_mem)

lemma chains_hold_set_chain:
  assumes "chains_hold chain_kinds st"
    and "i < length (streams st) \<Longrightarrow>
           \<forall>c\<in>set ch. \<forall>kv\<in>set (entries c).
             snd kv = [] \<or> (ai_type (fst kv) \<noteq> Host
                \<and> (ai_type (fst kv) = HostAsync) = (\<not> cuda (streams st ! i)))"
  shows "chains_hold chain_kinds (set_chain st i ch)"
  by (rule chains_hold_streams [OF assms(1), of i "(streams st ! i)\<lparr>release_chain := ch\<rparr>"])
     (use assms(2) in \<open>simp_all add: set_chain_def\<close>)

lemma set_update_alist: "set (AList.update k v al) \<subseteq> insert (k, v) (set al)"
  by (induction al) auto

lemma pop_back_entries:
  assumes "pop_back m ai = Some (p, m')" and "kv \<in> set m'"
  shows "kv \<in> set m \<or> (fst kv = ai \<and> (\<exists>l. (ai, l) \<in> set m \<and> l \<noteq> []))"
proof -
  obtain l where l: "map_of m ai = Some l" "l \<noteq> []" "m' = AList.update ai (butlast l) m"
    using assms(1) by (auto simp: pop_back_def split: option.splits if_splits)
  have "(ai, l) \<in> set m" using l(1) by (rule map_of_SomeD)
  moreover have "kv \<in> insert (ai, butlast l) (set m)"
    using assms(2) l(3) set_update_alist by fastforce
  ultimately show ?thesis using l(2) by auto
qed

lemma chain_pop_entries:
  assumes "chain_pop ch ai = Some (p, ch')" and "c' \<in> set ch'" and "kv \<in> set (entries c')"
  shows "\<exists>c\<in>set ch. kv \<in> set (entries c) \<or> (fst kv = ai \<and> (\<exists>l. (ai, l) \<in> set (entries c) \<and> l \<noteq> []))"
  using assms
proof (induction ch arbitrary: ch')
  case Nil
  then show ?case by simp
next
  case (Cons c cs)
  show ?case
  proof (cases "pop_back (entries c) ai")
    case (Some pm)
    obtain q m where pm: "pm = (q, m)" by (cases pm)
    then have ch': "ch' = ReleaseChain (addr c) m # cs"
      using Cons.prems(1) Some by simp
    show ?thesis
    proof (cases "c' = ReleaseChain (addr c) m")
      case True
      then have "kv \<in> set m" using Cons.prems(3) by simp
      then show ?thesis using pop_back_entries [of "entries c" ai q m kv] Some pm by auto
    next
      case False
      then have "c' \<in> set cs" using Cons.prems(2) ch' by simp
      then show ?thesis using Cons.prems(3) by auto
    qed
  next
    case None
    then obtain cs' where cs': "chain_pop cs ai = Some (p, cs')" "ch' = c # cs'"
      using Cons.prems(1) by (auto split: option.splits)
    show ?thesis
    proof (cases "c' = c")
      case True
      then show ?thesis using Cons.prems(3) by auto
    next
      case False
      then have "c' \<in> set cs'" using Cons.prems(2) cs'(2) by simp
      then show ?thesis using Cons.IH [OF cs'(1) _ Cons.prems(3)] by auto
    qed
  qed
qed

lemma chains_hold_pop:
  assumes "chains_hold chain_kinds st" and "get_stream st = Some (i, s)"
    and "chain_pop (release_chain s) ai = Some (p, ch)"
  shows "chains_hold chain_kinds (set_chain st i ch)"
proof (rule chains_hold_set_chain [OF assms(1)], intro ballI)
  fix c' kv
  assume i: "i < length (streams st)" and c': "c' \<in> set ch" and kv: "kv \<in> set (entries c')"
  have s: "s = streams st ! i" using get_stream_SomeD [OF assms(2)] by simp
  obtain c where c: "c \<in> set (release_chain s)"
      "kv \<in> set (entries c) \<or> (fst kv = ai \<and> (\<exists>l. (ai, l) \<in> set (entries c) \<and> l \<noteq> []))"
    using chain_pop_entries [OF assms(3) c' kv] by blast
  from c(2) show "snd kv = [] \<or> (ai_type (fst kv) \<noteq> Host
           \<and> (ai_type (fst kv) = HostAsync) = (\<not> cuda (streams st ! i)))"
  proof
    assume "kv \<in> set (entries c)"
    then show ?thesis using chains_hold_node [OF assms(1) i] c(1) s by simp
  next
    assume "fst kv = ai \<and> (\<exists>l. (ai, l) \<in> set (entries c) \<and> l \<noteq> [])"
    then obtain l where l: "fst kv = ai" "(ai, l) \<in> set (entries c)" "l \<noteq> []" by blast
    show ?thesis using chains_hold_node [OF assms(1) i _ l(2)] c(1) s l(1,3) by simp
  qed
qed

lemma chains_hold_push:
  assumes "chains_hold chain_kinds st" and "get_stream st = Some (i, s)"
    and "ai_type ai \<noteq> Host" and "(ai_type ai \<noteq> HostAsync) = cuda s"
  shows "chains_hold chain_kinds (push_chain st i ai p)"
proof -
  have i: "i < length (streams st)" and s: "s = streams st ! i"
    using get_stream_SomeD [OF assms(2)] by simp_all
  have new: "snd kv = [] \<or> (ai_type (fst kv) \<noteq> Host
           \<and> (ai_type (fst kv) = HostAsync) = (\<not> cuda (streams st ! i)))"
    if "kv \<in> set (push_back m ai p)"
      and "\<forall>kv\<in>set m. snd kv = [] \<or> (ai_type (fst kv) \<noteq> Host
           \<and> (ai_type (fst kv) = HostAsync) = (\<not> cuda (streams st ! i)))" for kv m
  proof -
    have "kv \<in> insert (ai, bucket m ai @ [p]) (set m)"
      using that(1) set_update_alist unfolding push_back_def by fastforce
    then show ?thesis using that(2) assms(3,4) s by auto
  qed
  show ?thesis
  proof (cases "release_chain (streams st ! i)")
    case Nil
    have "chains_hold chain_kinds (st\<lparr>chain_addr := Suc (chain_addr st)\<rparr>)"
      using assms(1) by (simp add: chains_hold_def)
    then have "chains_hold chain_kinds (set_chain (st\<lparr>chain_addr := Suc (chain_addr st)\<rparr>) i
                [ReleaseChain (chain_addr st) (push_back [] ai p)])"
      by (rule chains_hold_set_chain) (use new [of _ "[]"] in auto)
    then show ?thesis using Nil by (simp add: push_chain_def)
  next
    case (Cons c cs)
    have "chains_hold chain_kinds (set_chain st i
             (ReleaseChain (addr c) (push_back (entries c) ai p) # cs))"
    proof (rule chains_hold_set_chain [OF assms(1)], intro ballI)
      fix c' kv
      assume c': "c' \<in> set (ReleaseChain (addr c) (push_back (entries c) ai p) # cs)"
        and kv: "kv \<in> set (entries c')"
      show "snd kv = [] \<or> (ai_type (fst kv) \<noteq> Host
           \<and> (ai_type (fst kv) = HostAsync) = (\<not> cuda (streams st ! i)))"
      proof (cases "c' \<in> set cs")
        case True
        then show ?thesis using chains_hold_node [OF assms(1) i _ kv] Cons by simp
      next
        case False
        then have "kv \<in> set (push_back (entries c) ai p)" using c' kv by auto
        moreover have "\<forall>kv\<in>set (entries c). snd kv = [] \<or> (ai_type (fst kv) \<noteq> Host
           \<and> (ai_type (fst kv) = HostAsync) = (\<not> cuda (streams st ! i)))"
          using chains_hold_node [OF assms(1) i, of c] Cons by simp
        ultimately show ?thesis by (rule new)
      qed
    qed
    then show ?thesis using Cons by (simp add: push_chain_def)
  qed
qed

lemma split_chain_SomeD:
  "split_chain a ch = Some (pre, c0, post) \<Longrightarrow> ch = pre @ c0 # post"
  by (induction ch arbitrary: pre) (auto split: if_splits option.splits)

lemma chains_hold_stable: "step_stable (chains_hold chain_kinds)"
  unfolding step_stable_def trim_stable_def free_stable_def
proof (intro conjI allI impI)
  fix st i s ai p
  assume "chains_hold chain_kinds st" "get_stream st = Some (i, s)" "ai_type ai \<noteq> Host"
    "(ai_type ai \<noteq> HostAsync) = cuda s"
  then show "chains_hold chain_kinds (push_chain st i ai p)"
    by (rule chains_hold_push)
next
  fix st i s ai p ch
  assume "chains_hold chain_kinds st" "get_stream st = Some (i, s)"
    "chain_pop (release_chain s) ai = Some (p, ch)"
  then show "chains_hold chain_kinds (set_chain st i ch)"
    by (rule chains_hold_pop)
next
  fix st i s
  assume h: "chains_hold chain_kinds st" and g: "get_stream st = Some (i, s)"
  have "chains_hold chain_kinds (st\<lparr>chain_addr := Suc (chain_addr st)\<rparr>)"
    using h by (simp add: chains_hold_def)
  then show "chains_hold chain_kinds (set_chain (st\<lparr>chain_addr := Suc (chain_addr st)\<rparr>) i
                 (ReleaseChain (chain_addr st) [] # release_chain s))"
  proof (rule chains_hold_set_chain)
    assume "i < length (streams (st\<lparr>chain_addr := Suc (chain_addr st)\<rparr>))"
    then have i: "i < length (streams st)" by simp
    show "\<forall>c\<in>set (ReleaseChain (chain_addr st) [] # release_chain s). \<forall>kv\<in>set (entries c).
             snd kv = [] \<or> (ai_type (fst kv) \<noteq> Host
                \<and> (ai_type (fst kv) = HostAsync)
                    = (\<not> cuda (streams (st\<lparr>chain_addr := Suc (chain_addr st)\<rparr>) ! i)))"
      using chains_hold_node [OF h i] get_stream_SomeD [OF g] by auto
  qed
next
  fix st i q
  assume h: "chains_hold chain_kinds st"
  show "chains_hold chain_kinds
          (st\<lparr>streams := (streams st)[i := (streams st ! i)\<lparr>pending := q\<rparr>]\<rparr>)"
    by (rule chains_hold_streams [OF h, of i "(streams st ! i)\<lparr>pending := q\<rparr>"])
       (use chains_hold_node [OF h] in auto)
next
  fix st i a pre c0 c1 rest
  assume h: "chains_hold chain_kinds st" and i: "i < length (streams st)"
    and sp: "split_chain a (release_chain (streams st ! i)) = Some (pre, c0, c1 # rest)"
  have "set (pre @ [c0]) \<subseteq> set (release_chain (streams st ! i))"
    using split_chain_SomeD [OF sp] by auto
  then show "chains_hold chain_kinds (set_chain st i (pre @ [c0]))"
    using chains_hold_node [OF h i]
    by (intro chains_hold_set_chain [OF h]) blast
qed (simp_all add: chains_hold_def emit_def register_def raw_attempt_def Let_def)

lemma chains_hold_step:
  "chains_hold chain_kinds st \<Longrightarrow> chains_hold chain_kinds (step st op)"
  by (rule step_preserves [OF chains_hold_stable]) (simp_all add: chains_hold_def)

text \<open>
  C2, as stated, fails: \<^verbatim>\<open>jit_free\<close> sends every kind other than Host and HostAsync to
  the release chain of an active CUDA stream (\<^verbatim>\<open>bool cuda = ai.type != HostAsync\<close>). With
  the CUDA stream active, freeing the managed pointer 4096 puts it into the head node
  of that stream's chain, under a key of kind Managed.
\<close>

theorem managed_pointer_enters_release_chain:
  "chains_hold claimed_kinds managed_state
   \<and> fst (jit_free managed_state 4096) = Inr ()
   \<and> release_chain (streams (snd (jit_free managed_state 4096)) ! 0) =
       [ReleaseChain 0 [(AllocInfo Managed 0 64, [4096])]]
   \<and> \<not> chains_hold claimed_kinds (snd (jit_free managed_state 4096))"
  by (simp add: managed_state_eval free_defs model_defs boot_defs chains_hold_def
      claimed_kinds_def)

text \<open>
  C2, amended. Every pointer held in a node of the release chain of a stream \<open>s\<close> has
  a kind other than Host, and its kind is HostAsync exactly when \<open>s\<close> is a
  worker-pool stream (so on a CUDA stream it is Device, HostPinned, Managed or
  ManagedReadMostly; the device of a Device entry is not tied to the stream's). The
  property is kept by every operation, also by one that ends in an exception, and by
  the host functions and the choice of the active stream, hence along every sequence
  of them.
\<close>

theorem release_chain_kinds:
  assumes "chains_hold chain_kinds st"
  shows "chains_hold chain_kinds (foldl step st ops)"
  using assms
proof (induction ops arbitrary: st)
  case Nil
  then show ?case by simp
next
  case (Cons op ops)
  then show ?case using chains_hold_step [of st op] by simp
qed


theorem release_chain_kinds_witness:
  "chains_hold chain_kinds (foldl step (boot always_4096 (Some 0)) [Malloc Managed 64, Free 4096])"
proof -
  have h: "chains_hold chain_kinds (boot always_4096 (Some 0))"
    by (simp add: chains_hold_def boot_defs)
  from release_chain_kinds [OF h] show ?thesis .
qed

section \<open>Flushing a release chain\<close>

lemma bucket_insert_end:
  "bucket (insert_end m k l) ai = (if ai = k then bucket m k @ l else bucket m ai)"
  by (simp add: insert_end_def bucket_def update_conv')

lemma bucket_Cons: "bucket (kv # es) ai = (if ai = fst kv then snd kv else bucket es ai)"
  by (cases kv) (simp add: bucket_def)

lemma bucket_absent: "ai \<notin> fst ` set es \<Longrightarrow> bucket es ai = []"
proof -
  assume "ai \<notin> fst ` set es"
  then have "map_of es ai = None" by (simp add: map_of_eq_None_iff)
  then show ?thesis by (simp add: bucket_def)
qed

lemma reclaim_bucket:
  "distinct (map fst es) \<Longrightarrow> bucket (reclaim es m) ai = bucket m ai @ bucket es ai"
proof (induction es arbitrary: m)
  case Nil
  then show ?case by (simp add: reclaim_def bucket_def)
next
  case (Cons kv es)
  have r: "reclaim (kv # es) m = reclaim es (insert_end m (fst kv) (snd kv))"
    by (simp add: reclaim_def)
  have d: "distinct (map fst es)" "fst kv \<notin> fst ` set es"
    using Cons.prems by simp_all
  show ?case
  proof (cases "ai = fst kv")
    case True
    then show ?thesis
      using Cons.IH [OF d(1), of "insert_end m (fst kv) (snd kv)"] bucket_absent [OF d(2)]
      by (simp add: r bucket_insert_end bucket_Cons)
  next
    case False
    then show ?thesis
      using Cons.IH [OF d(1), of "insert_end m (fst kv) (snd kv)"]
      by (simp add: r bucket_insert_end bucket_Cons)
  qed
qed

lemma split_chain_find:
  "addr c0 = a \<Longrightarrow> a \<notin> addr ` set pre \<Longrightarrow> split_chain a (pre @ c0 # post) = Some (pre, c0, post)"
  by (induction pre) auto

lemma flush_callback_reclaims:
  assumes "i < length (streams st2)"
    and "release_chain (streams st2 ! i) = pre @ ReleaseChain a e0 # old' # rest'"
    and "a \<notin> addr ` set pre"
    and "distinct (map fst (entries old'))"
  shows "fst (flush_callback st2 i a) = Inr ()
         \<and> (\<forall>ai. bucket (alloc_free (snd (flush_callback st2 i a))) ai =
                    bucket (alloc_free st2) ai @ bucket (entries old') ai)
         \<and> release_chain (streams (snd (flush_callback st2 i a)) ! i) = pre @ [ReleaseChain a e0]"
proof -
  have sp: "split_chain a (release_chain (streams st2 ! i)) = Some (pre, ReleaseChain a e0, old' # rest')"
    using assms(2) split_chain_find [of "ReleaseChain a e0" a pre "old' # rest'"] assms(3) by simp
  have cb: "flush_callback st2 i a =
      (Inr (), set_chain (st2\<lparr>alloc_free := reclaim (entries old') (alloc_free st2)\<rparr>)
                        i (pre @ [ReleaseChain a e0]))"
    using assms(1) sp by (simp add: flush_callback_def)
  show ?thesis
    using assms(1) reclaim_bucket [OF assms(4)] by (simp add: cb set_chain_def)
qed

text \<open>
  C7. For the active stream \<open>i\<close> whose head node \<open>old\<close> holds at least one pointer (on
  a CUDA stream, or with TBB compiled in), \<^verbatim>\<open>jit_free_flush\<close> returns normally, installs
  an empty head node (at the address \<^verbatim>\<open>new\<close> hands out next) whose successor is the old
  head, and enqueues the host function with the new node as payload. When that host
  function runs, in any later state in which the new node is in the chain and followed
  by a node \<open>old'\<close> (the sealed old head, with the pointers it still holds), it appends
  to \<open>alloc_free[ai]\<close>, for every key \<open>ai\<close>, the vector that \<open>old'\<close> holds for \<open>ai\<close>,
  and the chain then ends at the new node: the old head is gone and the new node's
  \<^verbatim>\<open>next\<close> is null. (The keys of a hash map are distinct.)
\<close>

theorem free_flush_seals_and_reclaims:
  assumes "get_stream st = Some (i, s)"
    and "release_chain s = old # rest"
    and "n_dealloc (entries old) \<noteq> 0"
    and "cuda s \<or> ENOKI_ENABLE_TBB st"
  shows "fst (jit_free_flush st) = Inr ()
     \<and> release_chain (streams (snd (jit_free_flush st)) ! i) =
         ReleaseChain (chain_addr st) [] # old # rest
     \<and> pending (streams (snd (jit_free_flush st)) ! i) =
         pending s @ [FlushCallback (chain_addr st)]
     \<and> (\<forall>st2 pre e0 old' rest'.
          i < length (streams st2)
          \<longrightarrow> release_chain (streams st2 ! i) =
                pre @ ReleaseChain (chain_addr st) e0 # old' # rest'
          \<longrightarrow> chain_addr st \<notin> addr ` set pre
          \<longrightarrow> distinct (map fst (entries old'))
          \<longrightarrow> fst (flush_callback st2 i (chain_addr st)) = Inr ()
            \<and> (\<forall>ai. bucket (alloc_free (snd (flush_callback st2 i (chain_addr st)))) ai =
                       bucket (alloc_free st2) ai @ bucket (entries old') ai)
            \<and> release_chain (streams (snd (flush_callback st2 i (chain_addr st))) ! i) =
                pre @ [ReleaseChain (chain_addr st) e0])"
proof -
  have i: "i < length (streams st)" and s: "s = streams st ! i"
    using get_stream_SomeD [OF assms(1)] by simp_all
  have ne: "entries old \<noteq> []"
    using assms(3) by (auto simp: n_dealloc_def)
  have fl: "jit_free_flush st =
      (Inr (), enqueue (set_chain (st\<lparr>chain_addr := Suc (chain_addr st)\<rparr>) i
                          (ReleaseChain (chain_addr st) [] # old # rest))
                 i (FlushCallback (chain_addr st)))"
    using assms ne by (simp add: jit_free_flush_def Let_def)
  have "fst (jit_free_flush st) = Inr ()"
    by (simp add: fl)
  moreover have "release_chain (streams (snd (jit_free_flush st)) ! i) =
         ReleaseChain (chain_addr st) [] # old # rest"
    using i by (simp add: fl enqueue_def set_chain_def)
  moreover have "pending (streams (snd (jit_free_flush st)) ! i) =
         pending s @ [FlushCallback (chain_addr st)]"
    using i s by (simp add: fl enqueue_def set_chain_def)
  ultimately show ?thesis
    using flush_callback_reclaims by blast
qed

theorem free_flush_seals_and_reclaims_witness:
  "fst (jit_free_flush freed_state) = Inr ()
     \<and> release_chain (streams (snd (jit_free_flush freed_state)) ! 0) =
         ReleaseChain (chain_addr freed_state) []
           # ReleaseChain 0 [(AllocInfo Device 0 64, [4096])] # []
     \<and> pending (streams (snd (jit_free_flush freed_state)) ! 0) =
         pending \<lparr>cuda = True, device = 0,
                   release_chain = [ReleaseChain 0 [(AllocInfo Device 0 64, [4096])]],
                   pending = []\<rparr> @ [FlushCallback (chain_addr freed_state)]
     \<and> fst (flush_callback (snd (jit_free_flush freed_state)) 0 (chain_addr freed_state)) = Inr ()
     \<and> (\<forall>ai. bucket (alloc_free (snd (flush_callback (snd (jit_free_flush freed_state)) 0
                   (chain_addr freed_state)))) ai =
               bucket (alloc_free (snd (jit_free_flush freed_state))) ai
                 @ bucket (entries (ReleaseChain 0 [(AllocInfo Device 0 64, [4096])])) ai)
     \<and> release_chain (streams (snd (flush_callback (snd (jit_free_flush freed_state)) 0
           (chain_addr freed_state))) ! 0) =
         [] @ [ReleaseChain (chain_addr freed_state) []]"
proof -
  let ?S = "snd (jit_free_flush freed_state)"
  let ?old = "ReleaseChain 0 [(AllocInfo Device 0 64, [4096])]"
  have h1: "get_stream freed_state =
      Some (0, \<lparr>cuda = True, device = 0,
                 release_chain = [ReleaseChain 0 [(AllocInfo Device 0 64, [4096])]],
                 pending = []\<rparr>)"
    by (simp add: freed_state_eval get_stream_def boot_defs)
  have h2: "release_chain \<lparr>cuda = True, device = 0,
                 release_chain = [ReleaseChain 0 [(AllocInfo Device 0 64, [4096])]],
                 pending = []\<rparr> = ReleaseChain 0 [(AllocInfo Device 0 64, [4096])] # []"
    by simp
  have h3: "n_dealloc (entries (ReleaseChain 0 [(AllocInfo Device 0 64, [4096])])) \<noteq> 0"
    by (simp add: n_dealloc_def)
  have h4: "cuda \<lparr>cuda = True, device = 0,
                 release_chain = [ReleaseChain 0 [(AllocInfo Device 0 64, [4096])]],
                 pending = []\<rparr> \<or> ENOKI_ENABLE_TBB freed_state"
    by simp
  note t = free_flush_seals_and_reclaims [OF h1 h2 h3 h4]
  note a = t [THEN conjunct1]
  note b = t [THEN conjunct2, THEN conjunct1]
  note c = t [THEN conjunct2, THEN conjunct2, THEN conjunct1]
  note cb = t [THEN conjunct2, THEN conjunct2, THEN conjunct2, rule_format]
  have g1: "0 < length (streams ?S)"
    by (simp add: freed_state_eval jit_free_flush_def n_dealloc_def model_defs boot_defs)
  have g2: "release_chain (streams ?S ! 0) =
      [] @ ReleaseChain (chain_addr freed_state) [] # ?old # []"
    using b by simp
  have g3: "chain_addr freed_state \<notin> addr ` set []"
    by simp
  have g4: "distinct (map fst (entries ?old))"
    by simp
  note d = cb [OF g1 g2 g3 g4]
  from a b c d [THEN conjunct1] d [THEN conjunct2, THEN conjunct1]
    d [THEN conjunct2, THEN conjunct2]
  show ?thesis by (intro conjI)
qed

text \<open>
  The whole sequence on the example: the flush, then the stream running its host
  function.
\<close>

lemma flush_then_callback:
  "fst (run_callback (snd (jit_free_flush freed_state)) 0) = Inr ()
   \<and> alloc_free (snd (run_callback (snd (jit_free_flush freed_state)) 0)) =
       [(AllocInfo Device 0 64, [4096])]
   \<and> release_chain (streams (snd (run_callback (snd (jit_free_flush freed_state)) 0)) ! 0) =
       [ReleaseChain 1 []]"
  by (simp add: freed_state_eval jit_free_flush_def run_callback_def flush_callback_def
      reclaim_def insert_end_def n_dealloc_def model_defs boot_defs)

section \<open>Recycling a pointer from the release chain\<close>








section \<open>Out of memory: trim and retry\<close>

lemma trim_calls_append [simp]: "trim_calls (xs @ ys) = trim_calls xs + trim_calls ys"
  by (simp add: trim_calls_def)

lemma warnings_append [simp]: "warnings (xs @ ys) = warnings xs + warnings ys"
  by (simp add: warnings_def)




lemma log_push_chain [simp]: "log (push_chain st i ai p) = log st"
  by (simp add: push_chain_def set_chain_def split: list.splits)


lemma warned_push_chain [simp]:
  "jit_malloc_trim_warned (push_chain st i ai p) = jit_malloc_trim_warned st"
  by (simp add: push_chain_def set_chain_def split: list.splits)

lemma raw_calls_push_chain [simp]: "raw_calls (push_chain st i ai p) = raw_calls st"
  by (simp add: push_chain_def set_chain_def split: list.splits)


lemma raw_calls_stable: "free_stable (\<lambda>s. raw_calls s = n)"
  unfolding free_stable_def by (simp add: emit_def)

lemma jit_malloc_trim_decompose:
  assumes stable: "free_stable Q"
    and start: "Q ((if warn \<and> \<not> jit_malloc_trim_warned (emit st [EnterTrim warn])
                 then (emit (emit st [EnterTrim warn]) [TrimWarning])\<lparr>jit_malloc_trim_warned := True\<rparr>
                 else emit st [EnterTrim warn])\<lparr>alloc_free := [], alloc_unmap := []\<rparr>)"
    and frees: "\<And>s m. Q s \<Longrightarrow> Q (emit s (raw_frees m))"
  shows "Q (snd (jit_malloc_trim st warn))"
proof -
  let ?st1 = "if warn \<and> \<not> jit_malloc_trim_warned (emit st [EnterTrim warn])
                 then (emit (emit st [EnterTrim warn]) [TrimWarning])\<lparr>jit_malloc_trim_warned := True\<rparr>
                 else emit st [EnterTrim warn]"
  let ?st2 = "?st1\<lparr>alloc_free := [], alloc_unmap := []\<rparr>"
  obtain r st3 where u: "unmap_loop jit_free ?st2 (alloc_unmap ?st1) = (r, st3)"
    by (cases "unmap_loop jit_free ?st2 (alloc_unmap ?st1)")
  have "Q (snd (unmap_loop jit_free ?st2 (alloc_unmap ?st1)))"
    by (rule unmap_loop_preserves [OF stable jit_free_preserves [OF stable] start])
  then have q3: "Q st3" using u by simp
  show ?thesis
    using u q3 frees [OF q3] by (cases r) (simp_all add: jit_malloc_trim_def Let_def)
qed



lemma jit_malloc_trim_raw_calls: "raw_calls (snd (jit_malloc_trim st warn)) = raw_calls st"
  by (rule jit_malloc_trim_decompose [OF raw_calls_stable]) (auto simp: emit_def)


lemma malloc_cached_frame:
  "log (snd (malloc_cached st ai)) = log st
   \<and> raw_calls (snd (malloc_cached st ai)) = raw_calls st
   \<and> raw_alloc (snd (malloc_cached st ai)) = raw_alloc st
   \<and> jit_malloc_trim_warned (snd (malloc_cached st ai)) = jit_malloc_trim_warned st"
  by (auto simp: malloc_cached_def set_chain_def split: option.splits prod.splits)












text \<open>
  The scenario of the specification: the allocator refuses once, then succeeds.
\<close>

lemma out_of_memory_retry_run:
  "fst (jit_malloc (boot refuse_once (Some 1)) Host 4096) = Inr 4096
   \<and> log (snd (jit_malloc (boot refuse_once (Some 1)) Host 4096)) =
       [RawAlloc Host 4096, EnterTrim True, TrimWarning, RawAlloc Host 4096]"
  by (simp add: jit_malloc_trim_def trim_default_warn_def raw_frees_def refuse_once_def
      model_defs boot_defs)

text \<open>
  When \<^verbatim>\<open>jit_malloc_trim\<close> raises instead, \<^verbatim>\<open>jit_malloc\<close> raises the same error after
  the one refused call of the raw allocator.
\<close>

lemma jit_malloc_trim_exception:
  assumes "sz \<noteq> 0"
    and "malloc_info st type sz = Inr ai"
    and "malloc_cached st ai = (nullptr, st1)"
    and "raw_alloc st (raw_calls st) = Refused"
    and "fst (jit_malloc_trim (snd (raw_attempt st1 ai)) trim_default_warn) = Inl e"
  shows "fst (jit_malloc st type sz) = Inl e
         \<and> raw_calls (snd (jit_malloc st type sz)) = Suc (raw_calls st)"
proof -
  have fr: "raw_calls st1 = raw_calls st" "raw_alloc st1 = raw_alloc st"
    using malloc_cached_frame [of st ai] assms(3) by simp_all
  define sta where "sta = snd (raw_attempt st1 ai)"
  have a1: "raw_attempt st1 ai = (Refused, sta)"
    using assms(4) fr by (simp add: raw_attempt_def sta_def)
  have ra: "raw_calls sta = Suc (raw_calls st)"
    using fr by (simp add: sta_def raw_attempt_def emit_def)
  define stb where "stb = snd (jit_malloc_trim sta trim_default_warn)"
  have t: "jit_malloc_trim sta trim_default_warn = (Inl e, stb)"
    using assms(5) by (simp add: prod_eq_iff stb_def sta_def)
  have rb: "raw_calls stb = Suc (raw_calls st)"
    using jit_malloc_trim_raw_calls [of sta trim_default_warn] ra by (simp add: stb_def)
  have "malloc_new st1 ai = (Inl e, stb)"
    using a1 t by (simp add: malloc_new_def)
  then have "jit_malloc st type sz = (Inl e, stb)"
    using assms(1,2,3) by (simp add: jit_malloc_def)
  then show ?thesis using rb by simp
qed

end
